theory Spec2Isabelle
  imports
    Main
    "HOL-Library.Char_ord"
    "HOL-Library.List_Lexorder"
    "HOL-Library.Sublist"
    "HOL-Library.Multiset"
    "HOL-Library.AList"
    "HOL-Library.Word"
begin

section \<open>Errors\<close>

text \<open>
  Every failure the two programs can meet is a value.  A Go panic (a slice expression out
  of range, an index out of range, an assignment into a nil map) is a value as well: it
  ends the run like a returned error does.
\<close>

datatype error =
    ErrNotExist          \<comment> \<open>\<open>os.Stat\<close> on a dangling symbolic link, a missing path\<close>
  | ErrPermission        \<comment> \<open>a file or directory that cannot be opened for reading\<close>
  | ErrNotDir            \<comment> \<open>\<open>ENOTDIR\<close>: a path component is not a directory\<close>
  | ErrIsDir             \<comment> \<open>\<open>EISDIR\<close>: opening a directory for writing\<close>
  | ErrWriteTooLong      \<comment> \<open>\<open>tar.ErrWriteTooLong\<close>\<close>
  | ErrMissedWriting     \<comment> \<open>tar: the previous entry is short of its declared size\<close>
  | ErrNoManifest        \<comment> \<open>"Unable to find manifest in ..."\<close>
  | ErrSyntax            \<comment> \<open>a JSON text the decoder rejects\<close>
  | ErrRemote            \<comment> \<open>any error of the registry collaborator\<close>
  | ErrExist             \<comment> \<open>\<open>EEXIST\<close>: the path is there already\<close>
  | ErrUsage             \<comment> \<open>a required flag is missing\<close>
  | ErrUnmodelled        \<comment> \<open>a JSON text outside the part of JSON modelled here\<close>
  | PanicSliceBounds     \<comment> \<open>\<open>s[k:]\<close> with \<open>k > len(s)\<close>\<close>
  | PanicIndex           \<comment> \<open>\<open>ls[len(ls)-1]\<close> on an empty slice\<close>
  | PanicNilMap          \<comment> \<open>assignment to an entry in a nil map\<close>

definition seq :: "error + 'a \<Rightarrow> ('a \<Rightarrow> error + 'b) \<Rightarrow> error + 'b" where
  "seq r f = (case r of Inl e \<Rightarrow> Inl e | Inr x \<Rightarrow> f x)"

section \<open>Paths: the functions of \<open>path/filepath\<close> the programs call\<close>

text \<open>
  The programs run on Unix: the separator is \<open>/\<close> and there is no volume name.  Strings
  are byte strings and are compared bytewise, as Go compares them.
\<close>

text \<open>\<open>strings.Split(s, "/")\<close> and \<open>strings.Join(elems, "/")\<close>.\<close>

fun split_sep :: "string \<Rightarrow> string list" where
  "split_sep [] = [[]]"
| "split_sep (c # cs) =
     (if c = CHR ''/'' then [] # split_sep cs
      else (case split_sep cs of [] \<Rightarrow> [[c]] | e # es \<Rightarrow> (c # e) # es))"

fun join_sep :: "string list \<Rightarrow> string" where
  "join_sep [] = []"
| "join_sep [e] = e"
| "join_sep (e # es) = e @ CHR ''/'' # join_sep es"

text \<open>
  \<open>filepath.Clean\<close> reads the path element by element and keeps the elements of the
  result on a stack: an empty element and \<open>.\<close> are dropped; \<open>..\<close> removes the element
  before it when there is one that is not itself \<open>..\<close>, is dropped at the root of a
  rooted path, and is kept otherwise.  The empty result is \<open>.\<close>.
\<close>

definition clean_step :: "bool \<Rightarrow> string list \<Rightarrow> string \<Rightarrow> string list" where
  "clean_step rooted out e =
     (if e = [] \<or> e = ''.'' then out
      else if e = ''..'' then
        (if out \<noteq> [] \<and> last out \<noteq> ''..'' then butlast out
         else if rooted then out
         else out @ [''..''])
      else out @ [e])"

definition Clean :: "string \<Rightarrow> string" where
  "Clean path =
     (if path = [] then ''.''
      else
        let rooted = (hd path = CHR ''/'');
            out = join_sep (foldl (clean_step rooted) [] (split_sep path))
        in if rooted then CHR ''/'' # out
           else if out = [] then ''.''
           else out)"

text \<open>\<open>filepath.Join\<close>: the elements from the first non-empty one on, joined and cleaned.\<close>

definition Join :: "string list \<Rightarrow> string" where
  "Join elem =
     (case dropWhile (\<lambda>e. e = []) elem of
        [] \<Rightarrow> []
      | es \<Rightarrow> Clean (join_sep es))"

text \<open>\<open>filepath.Dir\<close>: the path up to and including its last separator, cleaned.\<close>

definition Dir :: "string \<Rightarrow> string" where
  "Dir path = Clean (rev (dropWhile (\<lambda>c. c \<noteq> CHR ''/'') (rev path)))"

text \<open>
  \<open>filepath.Base\<close>: the last element of the path, trailing separators removed first;
  \<open>.\<close> for the empty path and \<open>/\<close> for a path of separators only.
\<close>

definition Base :: "string \<Rightarrow> string" where
  "Base path =
     (if path = [] then ''.''
      else
        let p = rev (dropWhile (\<lambda>c. c = CHR ''/'') (rev path));
            b = rev (takeWhile (\<lambda>c. c \<noteq> CHR ''/'') (rev p))
        in if b = [] then ''/'' else b)"

text \<open>The Go slice expression \<open>s[k:]\<close>, which panics when \<open>k\<close> is beyond the end.\<close>

definition slice_from :: "string \<Rightarrow> nat \<Rightarrow> error + string" where
  "slice_from s k = (if k \<le> length s then Inr (drop k s) else Inl PanicSliceBounds)"

section \<open>The manifest (\<open>pkg/manifest/manifest.go\<close>)\<close>

text \<open>
  A Go map from string to string is an association list with pairwise distinct keys; the
  nil map is \<open>None\<close>.  The order of the list carries no meaning: wherever the code
  ranges over the map, the order of the visit is chosen by the run (see \<open>map_range\<close>).
\<close>

type_synonym gomap = "(string \<times> string) list"

record Manifest =
  Files :: "gomap option"

definition wf_Manifest :: "Manifest \<Rightarrow> bool" where
  "wf_Manifest m = (case Files m of None \<Rightarrow> True | Some fs \<Rightarrow> distinct (map fst fs))"

text \<open>The keys of the map and the value stored under a key (a nil map has no keys).\<close>

definition keys :: "Manifest \<Rightarrow> string set" where
  "keys m = (case Files m of None \<Rightarrow> {} | Some fs \<Rightarrow> fst ` set fs)"

definition lookup :: "Manifest \<Rightarrow> string \<Rightarrow> string option" where
  "lookup m k = (case Files m of None \<Rightarrow> None | Some fs \<Rightarrow> map_of fs k)"

text \<open>
  The order in which one \<open>range\<close> statement visits the entries of a map is a parameter
  of the model, of this type.  A run may use any order: all a Go program may rely on is
  that every entry is visited once.
\<close>

type_synonym map_range = "gomap \<Rightarrow> gomap"

definition range_ok :: "map_range \<Rightarrow> bool" where
  "range_ok rng = (\<forall>fs. mset (rng fs) = mset fs)"

definition normalize_path :: "string \<Rightarrow> string" where
  "normalize_path path = Clean path"

definition Has :: "Manifest \<Rightarrow> string \<Rightarrow> bool" where
  "Has m path =
     (case Files m of
        None \<Rightarrow> False
      | Some fs \<Rightarrow> map_of fs (normalize_path path) \<noteq> None)"

text \<open>
  The assignment \<open>files[k] = v\<close>, which panics on a nil map, and \<open>Add\<close>, which makes the
  map first when it is nil.
\<close>

definition map_assign :: "gomap option \<Rightarrow> string \<Rightarrow> string \<Rightarrow> error + gomap" where
  "map_assign files k v =
     (case files of
        None \<Rightarrow> Inl PanicNilMap
      | Some fs \<Rightarrow> Inr (AList.update k v fs))"

definition Add :: "Manifest \<Rightarrow> string \<Rightarrow> string \<Rightarrow> error + Manifest" where
  "Add m path hash =
     (let m1 = (if Files m = None then m\<lparr>Files := Some []\<rparr> else m)
      in seq (map_assign (Files m1) (normalize_path path) hash)
           (\<lambda>fs. Inr (m1\<lparr>Files := Some fs\<rparr>)))"

definition Remove :: "Manifest \<Rightarrow> string \<Rightarrow> Manifest" where
  "Remove m path =
     (case Files m of
        None \<Rightarrow> m
      | Some fs \<Rightarrow> m\<lparr>Files := Some (AList.delete (normalize_path path) fs)\<rparr>)"

definition Missing :: "map_range \<Rightarrow> Manifest \<Rightarrow> string list \<Rightarrow> string list" where
  "Missing rng m paths =
     (let have = set (map normalize_path paths);
          missing = filter (\<lambda>key. key \<notin> have)
                      (case Files m of None \<Rightarrow> [] | Some fs \<Rightarrow> map fst (rng fs))
      in sort missing)"

section \<open>The directory tree and \<open>filepath.Walk\<close>\<close>

text \<open>
  What is on disk under a path: a regular file with its permission bits and its content
  (\<open>None\<close> when the file cannot be opened for reading), a directory with its entries by
  name, a directory whose entries cannot be read, or a symbolic link with the node it
  resolves to (\<open>None\<close> when it dangles).
\<close>

datatype node =
    File "32 word" "string option"
  | Directory "32 word" "(string \<times> node) list"
  | Unreadable "32 word"
  | Symlink "node option"

text \<open>
  \<open>os.Lstat\<close> describes the node itself and \<open>os.Stat\<close> the node a link resolves to.  A
  \<open>FileInfo\<close> is modelled by the node it describes.
\<close>

fun stat :: "node \<Rightarrow> error + node" where
  "stat (Symlink None) = Inl ErrNotExist"
| "stat (Symlink (Some n)) = stat n"
| "stat n = Inr n"

fun IsDir :: "node \<Rightarrow> bool" where
  "IsDir (Directory _ _) = True"
| "IsDir (Unreadable _) = True"
| "IsDir _ = False"

fun IsRegular :: "node \<Rightarrow> bool" where
  "IsRegular (File _ _) = True"
| "IsRegular _ = False"

fun Mode_of :: "node \<Rightarrow> 32 word" where
  "Mode_of (File p _) = p"
| "Mode_of (Directory p _) = p"
| "Mode_of (Unreadable p) = p"
| "Mode_of (Symlink _) = 511"

fun Size_of :: "node \<Rightarrow> nat" where
  "Size_of (File _ (Some d)) = length d"
| "Size_of _ = 0"

text \<open>\<open>os.Open\<close> followed by reading the file to its end.\<close>

definition read_file :: "node \<Rightarrow> error + string" where
  "read_file n =
     seq (stat n) (\<lambda>t. case t of
        File _ (Some d) \<Rightarrow> Inr d
      | File _ None \<Rightarrow> Inl ErrPermission
      | _ \<Rightarrow> Inl ErrIsDir)"

text \<open>
  \<open>filepath.Walk\<close> reads the names of a directory sorted (\<open>sort_entries\<close>), calls the
  function on the directory and then walks the entries in that order, the path of an
  entry being \<open>Join(path, name)\<close>.  The first error the function returns ends the walk.
  A directory whose names cannot be read is handed to the function with the error.
\<close>

fun sort_entries :: "node \<Rightarrow> node" where
  "sort_entries (Directory p kids) =
     Directory p (sort_key fst (map (\<lambda>(name, k). (name, sort_entries k)) kids))"
| "sort_entries n = n"

fun walk :: "(string \<Rightarrow> node \<Rightarrow> error option \<Rightarrow> 's \<Rightarrow> error + 's) \<Rightarrow>
      string \<Rightarrow> node \<Rightarrow> 's \<Rightarrow> error + 's"
  and walk_names :: "(string \<Rightarrow> node \<Rightarrow> error option \<Rightarrow> 's \<Rightarrow> error + 's) \<Rightarrow>
      string \<Rightarrow> (string \<times> node) list \<Rightarrow> 's \<Rightarrow> error + 's"
where
  "walk fn path (Directory p kids) s =
     seq (fn path (Directory p kids) None s) (walk_names fn path kids)"
| "walk fn path (Unreadable p) s = fn path (Unreadable p) (Some ErrPermission) s"
| "walk fn path (File p c) s = fn path (File p c) None s"
| "walk fn path (Symlink t) s = fn path (Symlink t) None s"
| "walk_names fn path [] s = Inr s"
| "walk_names fn path (e # rest) s =
     seq (walk fn (Join [path, fst e]) (snd e) s) (walk_names fn path rest)"

definition Walk :: "string \<Rightarrow> node \<Rightarrow> (string \<Rightarrow> node \<Rightarrow> error option \<Rightarrow> 's \<Rightarrow> error + 's) \<Rightarrow>
      's \<Rightarrow> error + 's" where
  "Walk root tree fn s = walk fn root (sort_entries tree) s"

section \<open>The archive writer (\<open>archive/tar\<close>)\<close>

text \<open>
  An archive is the list of the entries written, each the header and the body.  The
  bytes of the buffer are the tar encoding of that list.  The headers carry the fields
  the programs set; every other field, the modification time among them, is zero.
  The writer refuses a header while the entry before it is short of its size, and a
  body longer than the size announced.
\<close>

datatype typeflag = TypeReg | TypeDir

record Header =
  Name :: string
  Size :: int
  Typeflag :: typeflag
  Mode :: int

record Writer =
  entries :: "(Header \<times> string) list"
  remaining :: nat

definition NewWriter :: Writer where
  "NewWriter = \<lparr>entries = [], remaining = 0\<rparr>"

fun append_body :: "(Header \<times> string) list \<Rightarrow> string \<Rightarrow> (Header \<times> string) list" where
  "append_body [] b = []"
| "append_body [(h, d)] b = [(h, d @ b)]"
| "append_body (e # es) b = e # append_body es b"

definition WriteHeader :: "Writer \<Rightarrow> Header \<Rightarrow> error + Writer" where
  "WriteHeader tw hdr =
     (if remaining tw \<noteq> 0 then Inl ErrMissedWriting
      else Inr \<lparr>entries = entries tw @ [(hdr, [])],
                remaining = (if Typeflag hdr = TypeDir then 0 else nat (Size hdr))\<rparr>)"

definition Write :: "Writer \<Rightarrow> string \<Rightarrow> error + Writer" where
  "Write tw b =
     (if remaining tw < length b then Inl ErrWriteTooLong
      else Inr \<lparr>entries = append_body (entries tw) b,
                remaining = remaining tw - length b\<rparr>)"

section \<open>The delta layer (\<open>cmd/kontext/main.go\<close>, \<open>writeNewFiles\<close>)\<close>

definition BasePath :: string where
  "BasePath = ''/var/run/kontext''"

definition ManifestPath :: string where
  "ManifestPath = ''/var/lib/kontext/manifest.json''"

text \<open>The hash function (SHA-256, in hexadecimal) is a parameter.\<close>

type_synonym hasher = "string \<Rightarrow> string"

definition digest :: "hasher \<Rightarrow> node \<Rightarrow> error + string" where
  "digest H n = seq (read_file n) (\<lambda>d. Inr (H d))"

definition Value :: "hasher \<Rightarrow> node \<Rightarrow> node \<Rightarrow> error + string" where
  "Value H n st = (if IsDir st then Inr [] else digest H n)"

text \<open>
  The variables of \<open>writeNewFiles\<close> that the walk and the loop after it update: the
  manifest \<open>m\<close>, the archive writer \<open>tw\<close>, \<open>count\<close> and \<open>allPaths\<close>.
\<close>

record vars =
  v_m :: Manifest
  v_tw :: Writer
  v_count :: int
  v_allPaths :: "string list"

text \<open>
  The function handed to \<open>filepath.Walk\<close> (lines 112 to 182); \<open>relativePath_of\<close> is
  its lines 130 to 133.  The mode \<open>0555\<close> of the headers is 365.
\<close>

definition relativePath_of :: "string \<Rightarrow> string \<Rightarrow> error + string" where
  "relativePath_of directory path =
     (if path \<noteq> directory then slice_from path (length directory + 1) else Inr ''.'')"

definition walkFn :: "hasher \<Rightarrow> string \<Rightarrow> string \<Rightarrow> node \<Rightarrow> error option \<Rightarrow> vars \<Rightarrow> error + vars" where
  "walkFn H directory path linfo err s =
     (case err of
        Some e \<Rightarrow> Inl e
      | None \<Rightarrow>
          seq (stat linfo) (\<lambda>info.
          seq (Value H linfo info) (\<lambda>i.
          seq (relativePath_of directory path) (\<lambda>relativePath.
              let s1 = s\<lparr>v_allPaths := v_allPaths s @ [relativePath]\<rparr> in
              if Has (v_m s1) relativePath then Inr s1
              else
                seq (Add (v_m s1) relativePath i) (\<lambda>m'.
                  let s2 = s1\<lparr>v_count := v_count s1 + 1, v_m := m'\<rparr>;
                      newPath = Join [BasePath, relativePath]
                  in
                    if IsDir info then
                      seq (WriteHeader (v_tw s2)
                             \<lparr>Name = newPath, Size = 0, Typeflag = TypeDir, Mode = 365\<rparr>)
                        (\<lambda>tw'. Inr (s2\<lparr>v_tw := tw'\<rparr>))
                    else
                      seq (read_file linfo) (\<lambda>file.
                      seq (WriteHeader (v_tw s2)
                             \<lparr>Name = newPath, Size = int (Size_of info), Typeflag = TypeReg,
                              Mode = 365\<rparr>) (\<lambda>tw'.
                      seq (Write tw' file) (\<lambda>tw''. Inr (s2\<lparr>v_tw := tw''\<rparr>)))))))))"

text \<open>
  The loop over the missing paths (lines 189 to 208).  The name of the marker for a
  missing path is computed at the head of the loop body (lines 190 to 193).
\<close>

definition whiteout_path :: "string \<Rightarrow> string" where
  "whiteout_path missing =
     (let newPath = Clean (Join [BasePath, missing]);
          dir = Dir newPath;
          base = ''.wh.'' @ Base newPath
      in Join [dir, base])"

fun whiteouts :: "string list \<Rightarrow> vars \<Rightarrow> error + vars" where
  "whiteouts [] s = Inr s"
| "whiteouts (missing # rest) s =
     (let newPath = whiteout_path missing;
          s1 = s\<lparr>v_count := v_count s + 1, v_m := Remove (v_m s) missing\<rparr>
      in if \<not> Has (v_m s1) (Dir missing) then whiteouts rest s1
         else
           seq (WriteHeader (v_tw s1)
                  \<lparr>Name = newPath, Size = 0, Typeflag = TypeReg, Mode = 0\<rparr>)
             (\<lambda>tw'. whiteouts rest (s1\<lparr>v_tw := tw'\<rparr>)))"

text \<open>
  For the statements below: the missing paths, of a list the loop goes through from a
  manifest, for which the loop writes a marker, and the entry it writes.
\<close>

fun marked :: "Manifest \<Rightarrow> string list \<Rightarrow> string list" where
  "marked m [] = []"
| "marked m (x # xs) =
     (if Has (Remove m x) (Dir x) then [x] else []) @ marked (Remove m x) xs"

fun removed :: "Manifest \<Rightarrow> string list \<Rightarrow> Manifest" where
  "removed m [] = m"
| "removed m (x # xs) = removed (Remove m x) xs"

definition whiteout_entry :: "string \<Rightarrow> Header \<times> string" where
  "whiteout_entry missing =
     (\<lparr>Name = whiteout_path missing, Size = 0, Typeflag = TypeReg, Mode = 0\<rparr>, [])"

text \<open>
  The walk alone, and \<open>writeNewFiles\<close>: the archive, the count and the manifest as the
  function leaves it (the Go function updates the manifest of its caller in place).
\<close>

definition walked :: "hasher \<Rightarrow> string \<Rightarrow> node \<Rightarrow> Manifest \<Rightarrow> error + vars" where
  "walked H directory tree m =
     Walk directory tree (walkFn H directory)
       \<lparr>v_m = m, v_tw = NewWriter, v_count = 0, v_allPaths = []\<rparr>"

definition writeNewFiles :: "map_range \<Rightarrow> hasher \<Rightarrow> string \<Rightarrow> node \<Rightarrow> Manifest \<Rightarrow>
      error + (Writer \<times> int \<times> Manifest)" where
  "writeNewFiles rng H directory tree m =
     seq (walked H directory tree m) (\<lambda>s.
     seq (whiteouts (Missing rng (v_m s) (v_allPaths s)) s) (\<lambda>s'.
     Inr (v_tw s', v_count s', v_m s')))"

section \<open>The manifest file as JSON (\<open>encoding/json\<close>)\<close>

text \<open>
  \<open>json.Marshal\<close> writes a Go string between quotes, byte by byte: an ASCII byte as it
  is, or escaped when it is a quote, a backslash, a control character or one of \<open><\<close>,
  \<open>>\<close>, \<open>&\<close>; a well-formed UTF-8 encoding as it is (U+2028 and U+2029 escaped); and
  the escape of U+FFFD for every byte that does not begin a well-formed encoding.
\<close>

definition byte :: "char \<Rightarrow> nat" where
  "byte c = of_char c"

definition hex :: "nat \<Rightarrow> char" where
  "hex n = ''0123456789abcdef'' ! n"

definition cont_byte :: "char \<Rightarrow> bool" where
  "cont_byte c = (128 \<le> byte c \<and> byte c \<le> 191)"

fun rune_size :: "string \<Rightarrow> nat" where
  "rune_size (a # b # rest) =
     (let x = byte a; y = byte b in
      if 194 \<le> x \<and> x \<le> 223 then (if cont_byte b then 2 else 0)
      else if 224 \<le> x \<and> x \<le> 239 then
        (if (if x = 224 then 160 else 128) \<le> y \<and> y \<le> (if x = 237 then 159 else 191)
            \<and> (case rest of c # _ \<Rightarrow> cont_byte c | [] \<Rightarrow> False)
         then 3 else 0)
      else if 240 \<le> x \<and> x \<le> 244 then
        (if (if x = 240 then 144 else 128) \<le> y \<and> y \<le> (if x = 244 then 143 else 191)
            \<and> (case rest of c # d # _ \<Rightarrow> cont_byte c \<and> cont_byte d | _ \<Rightarrow> False)
         then 4 else 0)
      else 0)"
| "rune_size _ = 0"

definition htmlSafe :: "char \<Rightarrow> bool" where
  "htmlSafe b = (32 \<le> byte b \<and> byte b < 128
     \<and> b \<noteq> CHR 0x22 \<and> b \<noteq> CHR ''&'' \<and> b \<noteq> CHR ''<'' \<and> b \<noteq> CHR ''>'' \<and> b \<noteq> CHR 0x5C)"

definition escape :: "char \<Rightarrow> string" where
  "escape b = CHR 0x5C #
     (if b = CHR 0x5C \<or> b = CHR 0x22 then [b]
      else if b = CHR 0x0A then ''n''
      else if b = CHR 0x0D then ''r''
      else if b = CHR 0x09 then ''t''
      else ''u00'' @ [hex (byte b div 16), hex (byte b mod 16)])"

function encode_chars :: "string \<Rightarrow> string" where
  "encode_chars [] = []"
| "encode_chars (b # bs) =
     (if byte b < 128 then (if htmlSafe b then [b] else escape b) @ encode_chars bs
      else
        let size = rune_size (b # bs) in
        if size = 0 then CHR 0x5C # ''ufffd'' @ encode_chars bs
        else if take 3 (b # bs) = [CHR 0xE2, CHR 0x80, CHR 0xA8] then
          CHR 0x5C # ''u2028'' @ encode_chars (drop 2 bs)
        else if take 3 (b # bs) = [CHR 0xE2, CHR 0x80, CHR 0xA9] then
          CHR 0x5C # ''u2029'' @ encode_chars (drop 2 bs)
        else take size (b # bs) @ encode_chars (drop (size - 1) bs))"
  by pat_completeness auto
termination
  by (relation "measure length") auto

definition encode_string :: "string \<Rightarrow> string" where
  "encode_string s = CHR 0x22 # encode_chars s @ [CHR 0x22]"

text \<open>
  The decoder finds the end of a string literal first (\<open>scan_lit\<close>) and then undoes the
  escapes (\<open>unquote\<close>); a raw byte that does not begin a well-formed UTF-8 encoding
  becomes U+FFFD.
\<close>

definition hexval :: "char \<Rightarrow> nat option" where
  "hexval c =
     (let n = byte c in
      if 48 \<le> n \<and> n \<le> 57 then Some (n - 48)
      else if 97 \<le> n \<and> n \<le> 102 then Some (n - 87)
      else if 65 \<le> n \<and> n \<le> 70 then Some (n - 55)
      else None)"

fun getu4 :: "string \<Rightarrow> nat option" where
  "getu4 (bs # u # a # b # c # d # rest) =
     (if bs = CHR 0x5C \<and> u = CHR ''u'' then
        (case (hexval a, hexval b, hexval c, hexval d) of
           (Some w, Some x, Some y, Some z) \<Rightarrow> Some (((w * 16 + x) * 16 + y) * 16 + z)
         | _ \<Rightarrow> None)
      else None)"
| "getu4 _ = None"

definition EncodeRune :: "nat \<Rightarrow> string" where
  "EncodeRune r =
     (if r < 128 then [char_of r]
      else if r < 2048 then [char_of (192 + r div 64), char_of (128 + r mod 64)]
      else if (55296 \<le> r \<and> r < 57344) \<or> 1114111 < r then [CHR 0xEF, CHR 0xBF, CHR 0xBD]
      else if r < 65536 then
        [char_of (224 + r div 4096), char_of (128 + r div 64 mod 64), char_of (128 + r mod 64)]
      else
        [char_of (240 + r div 262144), char_of (128 + r div 4096 mod 64),
         char_of (128 + r div 64 mod 64), char_of (128 + r mod 64)])"

definition IsSurrogate :: "nat \<Rightarrow> bool" where
  "IsSurrogate r = (55296 \<le> r \<and> r < 57344)"

definition utf16_DecodeRune :: "nat \<Rightarrow> nat option \<Rightarrow> nat" where
  "utf16_DecodeRune r1 r2 =
     (case r2 of
        Some r2' \<Rightarrow>
          if 55296 \<le> r1 \<and> r1 < 56320 \<and> 56320 \<le> r2' \<and> r2' < 57344
          then (r1 - 55296) * 1024 + (r2' - 56320) + 65536
          else 65533
      | None \<Rightarrow> 65533)"

fun scan_lit :: "string \<Rightarrow> nat option" where
  "scan_lit [] = None"
| "scan_lit (c # cs) =
     (if c = CHR 0x22 then Some 1
      else if c = CHR 0x5C then
        (case cs of [] \<Rightarrow> None | e # es \<Rightarrow> map_option (\<lambda>n. n + 2) (scan_lit es))
      else map_option Suc (scan_lit cs))"

definition prepend :: "string \<Rightarrow> string option \<Rightarrow> string option" where
  "prepend x r = map_option (\<lambda>d. x @ d) r"

function unquote :: "string \<Rightarrow> string option" where
  "unquote [] = Some []"
| "unquote (c # cs) =
     (if c = CHR 0x5C then
        (case cs of
           [] \<Rightarrow> None
         | e # es \<Rightarrow>
             if e = CHR 0x22 \<or> e = CHR 0x5C \<or> e = CHR ''/'' then prepend [e] (unquote es)
             else if e = CHR ''b'' then prepend [CHR 0x08] (unquote es)
             else if e = CHR ''f'' then prepend [CHR 0x0C] (unquote es)
             else if e = CHR ''n'' then prepend [CHR 0x0A] (unquote es)
             else if e = CHR ''r'' then prepend [CHR 0x0D] (unquote es)
             else if e = CHR ''t'' then prepend [CHR 0x09] (unquote es)
             else if e = CHR ''u'' then
               (case getu4 (c # cs) of
                  None \<Rightarrow> None
                | Some rr \<Rightarrow>
                    if IsSurrogate rr \<and> utf16_DecodeRune rr (getu4 (drop 4 es)) \<noteq> 65533
                    then prepend (EncodeRune (utf16_DecodeRune rr (getu4 (drop 4 es))))
                           (unquote (drop 10 es))
                    else prepend (EncodeRune (if IsSurrogate rr then 65533 else rr))
                           (unquote (drop 4 es)))
             else None)
      else if c = CHR 0x22 \<or> byte c < 32 then None
      else if byte c < 128 then prepend [c] (unquote cs)
      else
        let size = rune_size (c # cs) in
        if size = 0 then prepend [CHR 0xEF, CHR 0xBF, CHR 0xBD] (unquote cs)
        else prepend (take size (c # cs)) (unquote (drop (size - 1) cs)))"
  by pat_completeness auto
termination
  by (relation "measure length") auto

definition string_lit :: "string \<Rightarrow> (string \<times> string) option" where
  "string_lit s =
     (case s of
        [] \<Rightarrow> None
      | c # cs \<Rightarrow>
          if c \<noteq> CHR 0x22 then None
          else
            (case scan_lit cs of
               None \<Rightarrow> None
             | Some n \<Rightarrow> map_option (\<lambda>d. (d, drop n cs)) (unquote (take (n - 1) cs))))"

definition skip :: "string \<Rightarrow> string" where
  "skip s = dropWhile (\<lambda>c. c = CHR '' '' \<or> c = CHR 0x09 \<or> c = CHR 0x0D \<or> c = CHR 0x0A) s"

text \<open>
  \<open>Marshal\<close> of a \<open>Manifest\<close>: the one field \<open>files\<close> is left out when the map is nil or
  empty (\<open>omitempty\<close>); the keys of a map are written sorted, whatever the order in
  which the encoder's own range visits the map.
\<close>

fun join_comma :: "string list \<Rightarrow> string" where
  "join_comma [] = []"
| "join_comma [e] = e"
| "join_comma (e # es) = e @ CHR '','' # join_comma es"

definition encode_member :: "string \<times> string \<Rightarrow> string" where
  "encode_member kv = encode_string (fst kv) @ CHR '':'' # encode_string (snd kv)"

definition Marshal :: "map_range \<Rightarrow> Manifest \<Rightarrow> string" where
  "Marshal rng m =
     (case Files m of
        None \<Rightarrow> ''{}''
      | Some fs \<Rightarrow>
          if fs = [] then ''{}''
          else CHR ''{'' # encode_string ''files'' @ CHR '':'' # CHR ''{'' #
               join_comma (map encode_member (sort_key fst (rng fs))) @ ''}}'')"

function string_members :: "gomap \<Rightarrow> string \<Rightarrow> error + (gomap \<times> string)" where
  "string_members fs s =
     (case string_lit (skip s) of
        None \<Rightarrow> Inl ErrSyntax
      | Some (k, r1) \<Rightarrow>
          (case skip r1 of
             [] \<Rightarrow> Inl ErrSyntax
           | c # r2 \<Rightarrow>
               if c \<noteq> CHR '':'' then Inl ErrSyntax
               else
                 (case string_lit (skip r2) of
                    None \<Rightarrow> Inl ErrUnmodelled
                  | Some (v, r3) \<Rightarrow>
                      (case skip r3 of
                         [] \<Rightarrow> Inl ErrSyntax
                       | d # r4 \<Rightarrow>
                           if d = CHR ''}'' then Inr (AList.update k v fs, r4)
                           else if d = CHR '','' then string_members (AList.update k v fs) r4
                           else Inl ErrSyntax))))"
  by pat_completeness auto
termination
proof (relation "measure (\<lambda>(fs, s). length s)", goal_cases)
  case 1
  show ?case by simp
next
  case (2 fs s x2 k r1 c r2 x2b v r3 d r4)
  have lit: "\<And>t x r. string_lit t = Some (x, r) \<Longrightarrow> length r < length t"
    by (auto simp: string_lit_def split: list.splits if_splits option.splits)
  have sk: "\<And>t. length (skip t) \<le> length t"
    by (simp add: skip_def length_dropWhile_le)
  have "length r1 < length (skip s)"
    using 2 lit by metis
  moreover have "length r2 < length (skip r1)"
    using 2 by simp
  moreover have "length r3 < length (skip r2)"
    using 2 lit by metis
  moreover have "length r4 < length (skip r3)"
    using 2 by simp
  ultimately have "length r4 < length s"
    using sk [of s] sk [of r1] sk [of r2] sk [of r3] by linarith
  then show ?case by simp
qed

definition Decode :: "string \<Rightarrow> error + Manifest" where
  "Decode s =
     (case skip s of
        [] \<Rightarrow> Inl ErrSyntax
      | c # r0 \<Rightarrow>
          if c \<noteq> CHR ''{'' then Inl ErrUnmodelled
          else
            (case skip r0 of
               [] \<Rightarrow> Inl ErrSyntax
             | d # r1 \<Rightarrow>
                 if d = CHR ''}'' then Inr \<lparr>Files = None\<rparr>
                 else
                   (case string_lit (d # r1) of
                      None \<Rightarrow> Inl ErrSyntax
                    | Some (name, r2) \<Rightarrow>
                        if name \<noteq> ''files'' then Inl ErrUnmodelled
                        else
                          (case skip r2 of
                             [] \<Rightarrow> Inl ErrSyntax
                           | e # r3 \<Rightarrow>
                               if e \<noteq> CHR '':'' then Inl ErrSyntax
                               else
                                 (case skip r3 of
                                    [] \<Rightarrow> Inl ErrSyntax
                                  | f # r4 \<Rightarrow>
                                      if f \<noteq> CHR ''{'' then Inl ErrUnmodelled
                                      else
                                        seq (case skip r4 of
                                               [] \<Rightarrow> Inl ErrSyntax
                                             | g # r5 \<Rightarrow>
                                                 if g = CHR ''}'' then Inr ([], r5)
                                                 else string_members [] (g # r5))
                                          (\<lambda>(fs, r6).
                                             case skip r6 of
                                               [] \<Rightarrow> Inl ErrSyntax
                                             | h # r7 \<Rightarrow>
                                                 if h = CHR ''}'' then Inr \<lparr>Files = Some fs\<rparr>
                                                 else Inl ErrUnmodelled))))))"



section \<open>The manifest layer, the base image and \<open>main\<close> (\<open>cmd/kontext/main.go\<close>)\<close>


definition writeManifest :: "map_range \<Rightarrow> Manifest \<Rightarrow> error + Writer" where
  "writeManifest rng m =
     (let b = Marshal rng m;
          header = \<lparr>Name = ManifestPath, Size = int (length b), Typeflag = TypeReg, Mode = 365\<rparr>
      in seq (WriteHeader NewWriter header) (\<lambda>tw. Write tw b))"

type_synonym tar_entry = "Header \<times> string"

text \<open>
  What a tar reader yields: the entries, and the error that ends the stream when it is
  not its regular end.
\<close>

type_synonym tar_stream = "tar_entry list \<times> error option"

text \<open>A layer gives its uncompressed stream, or fails to; an image gives its layers, or fails to.\<close>

type_synonym layer = "error + tar_stream"

record image =
  Layers :: "error + layer list"

record remote =
  remote_Image :: "string \<Rightarrow> error + image"
  NewTag :: "string \<Rightarrow> error + string"
  Resolve :: "string \<Rightarrow> error option"
  remote_Write :: "string \<Rightarrow> image \<Rightarrow> error option"

definition defaultBaseImage :: string where
  "defaultBaseImage = ''gcr.io/mattmoor-public/github.com/mattmoor/kontext/cmd/extractor:latest''"

definition fallback :: "remote \<Rightarrow> error + (image \<times> Manifest)" where
  "fallback R = seq (remote_Image R defaultBaseImage) (\<lambda>base. Inr (base, \<lparr>Files = None\<rparr>))"

fun find_manifest :: "remote \<Rightarrow> image \<Rightarrow> tar_entry list \<Rightarrow> error option \<Rightarrow> error + (image \<times> Manifest)" where
  "find_manifest R base [] end = fallback R"
| "find_manifest R base ((header, body) # rest) end =
     (if Name header \<noteq> ManifestPath then find_manifest R base rest end
      else
        (case Decode body of
           Inl e \<Rightarrow> if e = ErrUnmodelled then Inl ErrUnmodelled else fallback R
         | Inr m \<Rightarrow> Inr (base, m)))"

definition findBaseImage :: "remote \<Rightarrow> string \<Rightarrow> error + (image \<times> Manifest)" where
  "findBaseImage R targetTag =
     (case remote_Image R targetTag of
        Inl e \<Rightarrow> fallback R
      | Inr base \<Rightarrow>
          (case Layers base of
             Inl e \<Rightarrow> fallback R
           | Inr ls \<Rightarrow>
               if ls = [] then Inl PanicIndex
               else
                 (case last ls of
                    Inl e \<Rightarrow> fallback R
                  | Inr (es, end) \<Rightarrow> find_manifest R base es end)))"

definition layer_of :: "Writer \<Rightarrow> layer" where
  "layer_of tw = Inr (entries tw, None)"

definition combineImage :: "image \<Rightarrow> Writer \<Rightarrow> Writer \<Rightarrow> error + image" where
  "combineImage base layer mlayer =
     (case Layers base of
        Inl e \<Rightarrow> Inl e
      | Inr ls \<Rightarrow> Inr (base\<lparr>Layers := Inr (ls @ [layer_of layer, layer_of mlayer])\<rparr>))"

datatype outcome =
    Fatal error
  | NoChange
  | Published string image

definition main :: "remote \<Rightarrow> map_range \<Rightarrow> map_range \<Rightarrow> hasher \<Rightarrow> string \<Rightarrow> string \<Rightarrow> node \<Rightarrow> outcome" where
  "main R rng rng' H directory tag tree =
     (if directory = [] then Fatal ErrUsage
      else if tag = [] then Fatal ErrUsage
      else
        (case NewTag R tag of
           Inl e \<Rightarrow> Fatal e
         | Inr targetTag \<Rightarrow>
        (case findBaseImage R targetTag of
           Inl e \<Rightarrow> Fatal e
         | Inr (base, m) \<Rightarrow>
        (case writeNewFiles rng H directory tree m of
           Inl e \<Rightarrow> Fatal e
         | Inr (layer, delta, m') \<Rightarrow>
             if delta = 0 then NoChange
             else
        (case writeManifest rng' m' of
           Inl e \<Rightarrow> Fatal e
         | Inr mlayer \<Rightarrow>
        (case combineImage base layer mlayer of
           Inl e \<Rightarrow> Fatal e
         | Inr combinedImage \<Rightarrow>
        (case Resolve R targetTag of
           Some e \<Rightarrow> Fatal e
         | None \<Rightarrow>
        (case remote_Write R targetTag combinedImage of
           Some e \<Rightarrow> Fatal e
         | None \<Rightarrow> Published targetTag combinedImage))))))))"

section \<open>extractor\<close>

definition TargetPath :: string where
  "TargetPath = ''/workspace''"

datatype fentry = FDir "32 word" | FFile "32 word" string

record disk =
  nodes :: "string \<rightharpoonup> fentry"
  umask :: "32 word"

unbundle bit_operations_syntax

definition os_Mkdir :: "disk \<Rightarrow> string \<Rightarrow> 32 word \<Rightarrow> error + disk" where
  "os_Mkdir d path perm =
     (case nodes d path of
        Some _ \<Rightarrow> Inl ErrExist
      | None \<Rightarrow>
          (case nodes d (Dir path) of
             None \<Rightarrow> Inl ErrNotExist
           | Some (FFile _ _) \<Rightarrow> Inl ErrNotDir
           | Some (FDir _) \<Rightarrow> Inr (d\<lparr>nodes := (nodes d)(path \<mapsto> FDir (perm AND NOT (umask d)))\<rparr>)))"

function MkdirAll :: "disk \<Rightarrow> string \<Rightarrow> 32 word \<Rightarrow> error + disk" where
  "MkdirAll d path perm =
     (case nodes d path of
        Some (FDir _) \<Rightarrow> Inr d
      | Some (FFile _ _) \<Rightarrow> Inl ErrNotDir
      | None \<Rightarrow>
          (let i = length (dropWhile (\<lambda>c. c = CHR ''/'') (rev path));
               j = length (dropWhile (\<lambda>c. c \<noteq> CHR ''/'') (rev (take i path)))
           in seq (if 1 < j then MkdirAll d (take (j - 1) path) perm else Inr d) (\<lambda>d'.
                case os_Mkdir d' path perm of
                  Inr d'' \<Rightarrow> Inr d''
                | Inl e \<Rightarrow>
                    (case nodes d' path of
                       Some (FDir _) \<Rightarrow> Inr d'
                     | _ \<Rightarrow> Inl e))))"
  by pat_completeness auto
termination
proof (relation "measure (\<lambda>(d, path, perm). length path)", goal_cases)
  case 1
  show ?case by simp
next
  case (2 d path perm x xa)
  have "xa \<le> length (rev (take x path))"
    unfolding 2(3) by (rule length_dropWhile_le)
  then have "xa \<le> length path"
    by simp
  with 2(4) show ?case by simp
qed

definition OpenFile :: "disk \<Rightarrow> string \<Rightarrow> 32 word \<Rightarrow> error + disk" where
  "OpenFile d name perm =
     (case nodes d name of
        Some (FFile _ _) \<Rightarrow> Inr d
      | Some (FDir _) \<Rightarrow> Inl ErrIsDir
      | None \<Rightarrow>
          (case nodes d (Dir name) of
             None \<Rightarrow> Inl ErrNotExist
           | Some (FFile _ _) \<Rightarrow> Inl ErrNotDir
           | Some (FDir _) \<Rightarrow> Inr (d\<lparr>nodes := (nodes d)(name \<mapsto> FFile (perm AND NOT (umask d)) [])\<rparr>)))"

definition write_at_start :: "disk \<Rightarrow> string \<Rightarrow> string \<Rightarrow> disk" where
  "write_at_start d name b =
     (case nodes d name of
        Some (FFile p old) \<Rightarrow> d\<lparr>nodes := (nodes d)(name \<mapsto> FFile p (b @ drop (length b) old))\<rparr>
      | _ \<Rightarrow> d)"

definition copy_file :: "node \<Rightarrow> string \<Rightarrow> node \<Rightarrow> disk \<Rightarrow> error + disk" where
  "copy_file src dest info d =
     seq (read_file src) (\<lambda>from.
     seq (OpenFile d dest (Mode_of info)) (\<lambda>d'.
     Inr (write_at_start d' dest from)))"

record ext =
  x_disk :: disk
  x_log :: "string list"

definition extractFn :: "string \<Rightarrow> node \<Rightarrow> error option \<Rightarrow> ext \<Rightarrow> error + ext" where
  "extractFn path info err s =
     (case err of
        Some e \<Rightarrow> Inl e
      | None \<Rightarrow>
          if path = BasePath then Inr s
          else
            seq (slice_from path (length BasePath + 1)) (\<lambda>relativePath.
              let target = Join [TargetPath, relativePath] in
              if IsDir info then
                seq (MkdirAll (x_disk s) target (Mode_of info)) (\<lambda>d. Inr (s\<lparr>x_disk := d\<rparr>))
              else if \<not> IsRegular info then
                Inr (s\<lparr>x_log := x_log s @ [''Skipping irregular file: '' @ relativePath]\<rparr>)
              else
                seq (MkdirAll (x_disk s) (Dir target) 292) (\<lambda>d.
                seq (copy_file info target info d) (\<lambda>d'. Inr (s\<lparr>x_disk := d'\<rparr>)))))"

definition extractor_main :: "node \<Rightarrow> disk \<Rightarrow> error option \<times> ext" where
  "extractor_main mount d =
     (case Walk BasePath mount extractFn \<lparr>x_disk = d, x_log = []\<rparr> of
        Inl e \<Rightarrow> (Some e, \<lparr>x_disk = d, x_log = []\<rparr>)
      | Inr s \<Rightarrow> (None, s))"


text \<open>
  For the proofs: between two calls of the walk function the writer owes no byte to the
  entry before, and the count is the number of entries written.
\<close>

definition tw_inv :: "vars \<Rightarrow> bool" where
  "tw_inv s = (remaining (v_tw s) = 0 \<and> v_count s = int (length (entries (v_tw s))))"

text \<open>
  For the statements: the walked paths that the walk includes in the layer, given the
  keys the manifest has before the walk.  A path is included when its normalized form is
  no key of the baseline and no path walked before it has the same normalized form.
\<close>

fun included :: "string set \<Rightarrow> string list \<Rightarrow> string list" where
  "included K [] = []"
| "included K (q # qs) =
     (if normalize_path q \<in> K then included K qs
      else q # included (insert (normalize_path q) K) qs)"

definition walk_inv :: "Manifest \<Rightarrow> vars \<Rightarrow> bool" where
  "walk_inv m0 s =
     (keys (v_m s) = keys m0 \<union> normalize_path ` set (v_allPaths s)
      \<and> (\<forall>k. k \<in> keys m0 \<longrightarrow> lookup (v_m s) k = lookup m0 k)
      \<and> map (\<lambda>e. Name (fst e)) (entries (v_tw s)) =
          map (\<lambda>q. Join [BasePath, q]) (included (keys m0) (v_allPaths s))
      \<and> (wf_Manifest m0 \<longrightarrow> wf_Manifest (v_m s)))"

definition hash_ex :: hasher where
  "hash_ex d = ''sha256:'' @ d"

definition M_gone :: Manifest where
  "M_gone = \<lparr>Files = Some [(''.'', []), (''gone/x'', ''h''), (''gone'', [])]\<rparr>"

text \<open>
  For the proofs about paths: the elements \<open>Clean\<close> keeps, the stacks it can end with
  (no \<open>..\<close> in a rooted path, and in another path every \<open>..\<close> before every other
  element), and the path of a stack.
\<close>

definition elem_ok :: "string \<Rightarrow> bool" where
  "elem_ok e = (e \<noteq> [] \<and> e \<noteq> ''.'' \<and> CHR ''/'' \<notin> set e)"

fun dots_first :: "string list \<Rightarrow> bool" where
  "dots_first [] = True"
| "dots_first (e # es) = (if e = ''..'' then dots_first es else ''..'' \<notin> set es)"

definition stack_ok :: "bool \<Rightarrow> string list \<Rightarrow> bool" where
  "stack_ok rooted st =
     (list_all elem_ok st \<and> (if rooted then ''..'' \<notin> set st else dots_first st))"

definition render :: "bool \<Rightarrow> string list \<Rightarrow> string" where
  "render rooted st =
     (if rooted then CHR ''/'' # join_sep st
      else if st = [] then ''.''
      else join_sep st)"

definition M_dot :: Manifest where
  "M_dot = \<lparr>Files = Some [(''.'', [])]\<rparr>"

definition image_ex :: image where
  "image_ex =
     \<lparr>Layers = Inr
        [Inr ([(\<lparr>Name = ''/var/run/kontext'', Size = 0, Typeflag = TypeDir, Mode = 365\<rparr>, [])],
              None),
         Inr ([(\<lparr>Name = ManifestPath, Size = 16, Typeflag = TypeReg, Mode = 365\<rparr>,
                Marshal id M_dot)],
              None)]\<rparr>"

definition R_ex :: remote where
  "R_ex =
     \<lparr>remote_Image = (\<lambda>ref. if ref = ''registry/ctx:latest'' then Inr image_ex else Inl ErrRemote),
      NewTag = (\<lambda>t. Inr t),
      Resolve = (\<lambda>t. None),
      remote_Write = (\<lambda>t i. None)\<rparr>"

text \<open>
  For the statements about the walk: a name an entry of a directory can have; a tree
  whose entries have such names; and the descendants of a node, each as the list of names
  from the node down, in the order of the walk.
\<close>

definition name_ok :: "string \<Rightarrow> bool" where
  "name_ok e = (elem_ok e \<and> e \<noteq> ''..'')"

fun names_ok :: "node \<Rightarrow> bool" where
  "names_ok (Directory p kids) = (\<forall>e \<in> set kids. name_ok (fst e) \<and> names_ok (snd e))"
| "names_ok n = True"

fun below :: "node \<Rightarrow> string list list"
  and below_names :: "(string \<times> node) list \<Rightarrow> string list list" where
  "below (Directory p kids) = below_names kids"
| "below (Unreadable p) = []"
| "below (File p c) = []"
| "below (Symlink t) = []"
| "below_names [] = []"
| "below_names (e # rest) = ([fst e] # map ((#) (fst e)) (below (snd e))) @ below_names rest"

definition normalized :: "Manifest \<Rightarrow> bool" where
  "normalized m = (\<forall>k \<in> keys m. normalize_path k = k)"

definition tree_ex :: node where
  "tree_ex = Directory 493
     [(''foo'', Directory 493 [(''bar'', File 420 (Some ''BAR''))]),
      (''a'', Directory 493 [(''b'', File 420 (Some ''B''))])]"

definition M_empty :: Manifest where
  "M_empty = \<lparr>Files = None\<rparr>"

definition tree_f :: node where
  "tree_f = Directory 493 [(''f'', File 420 (Some ''new''))]"

definition M_f :: Manifest where
  "M_f = \<lparr>Files = Some [(''.'', []), (''f'', ''sha256:old'')]\<rparr>"

definition tree_keep :: node where
  "tree_keep = Directory 493 [(''keep'', Directory 493 [])]"

definition M_base :: Manifest where
  "M_base = \<lparr>Files = Some [(''top'', ''h2''), (''gone/x'', ''h''), (''.'', []), (''keep'', []),
                           (''gone'', [])]\<rparr>"

definition s_keep :: vars where
  "s_keep = \<lparr>v_m = M_base, v_tw = NewWriter, v_count = 0, v_allPaths = [''.'', ''keep'']\<rparr>"

definition M_alias :: Manifest where
  "M_alias = \<lparr>Files = Some [(''.'', []), (''f'', ''sha256:old''), (''./f'', ''sha256:old'')]\<rparr>"

definition M_odd :: Manifest where
  "M_odd = \<lparr>Files = Some [(''b'', []), (''!/../b/x'', ''h'')]\<rparr>"

definition M_odd2 :: Manifest where
  "M_odd2 = \<lparr>Files = Some [(''.'', []), (''d'', []), (''#/../d/y'', ''h'')]\<rparr>"

definition tree_ex2 :: node where
  "tree_ex2 = Directory 493
     [(''a'', Directory 493 [(''b'', File 420 (Some ''B''))]),
      (''foo'', Directory 493 [(''bar'', File 420 (Some ''BAR''))])]"

section \<open>Inputs of the examples\<close>

definition M_ex :: Manifest where
  "M_ex = \<lparr>Files = Some [(''b'', []), (''a/b'', ''x''), (''a'', [])]\<rparr>"



section \<open>Basic facts\<close>

lemma seq_Inr [simp]: "seq (Inr x) f = f x"
  by (simp add: seq_def)

lemma seq_Inl [simp]: "seq (Inl e) f = Inl e"
  by (simp add: seq_def)

lemma range_ok_set: "range_ok rng \<Longrightarrow> set (rng fs) = set fs"
  unfolding range_ok_def by (metis set_mset_mset)

lemma range_ok_distinct:
  assumes "range_ok rng" and "distinct (map fst fs)"
  shows "distinct (map fst (rng fs))"
proof -
  have "mset (map fst (rng fs)) = mset (map fst fs)"
    using assms(1) unfolding range_ok_def by (metis mset_map)
  then show ?thesis
    using assms(2) by (metis mset_eq_imp_distinct_iff)
qed

lemma range_ok_id: "range_ok id"
  by (simp add: range_ok_def)

lemma range_ok_rev: "range_ok rev"
  by (simp add: range_ok_def)

section \<open>The walk, step by step\<close>

lemma seq_eq_Inr: "seq r f = Inr y \<longleftrightarrow> (\<exists>x. r = Inr x \<and> f x = Inr y)"
  by (cases r) simp_all

lemma walk_preserves_aux:
  fixes fn :: "string \<Rightarrow> node \<Rightarrow> error option \<Rightarrow> 's \<Rightarrow> error + 's"
  shows "(\<forall>path n err s s'. P s \<longrightarrow> fn path n err s = Inr s' \<longrightarrow> P s') \<Longrightarrow>
          P s \<Longrightarrow> walk fn path n s = Inr s' \<Longrightarrow> P s'"
    and "(\<forall>path n err s s'. P s \<longrightarrow> fn path n err s = Inr s' \<longrightarrow> P s') \<Longrightarrow>
          P s \<Longrightarrow> walk_names fn path kids s = Inr s' \<Longrightarrow> P s'"
proof (induction fn path n s and fn path kids s arbitrary: s' and s' rule: walk_walk_names.induct)
  case (1 fn path p kids s)
  from "1.prems"(3) obtain s1 where a: "fn path (Directory p kids) None s = Inr s1"
    and b: "walk_names fn path kids s1 = Inr s'"
    by (auto simp: seq_eq_Inr)
  have "P s1" using "1.prems"(1,2) a by blast
  then show ?case using "1.IH" "1.prems"(1) a b by blast
next
  case (2 fn path p s)
  then show ?case by auto
next
  case (3 fn path p c s)
  then show ?case by auto
next
  case (4 fn path t s)
  then show ?case by auto
next
  case (5 fn path s)
  then show ?case by simp
next
  case (6 fn path e rest s)
  from "6.prems"(3) obtain s1 where a: "walk fn (Join [path, fst e]) (snd e) s = Inr s1"
    and b: "walk_names fn path rest s1 = Inr s'"
    by (auto simp: seq_eq_Inr)
  have "P s1" using "6.IH"(1) "6.prems"(1,2) a by blast
  then show ?case using "6.IH"(2) "6.prems"(1) a b by blast
qed

lemma walk_preserves:
  fixes fn :: "string \<Rightarrow> node \<Rightarrow> error option \<Rightarrow> 's \<Rightarrow> error + 's"
  assumes "\<And>path n err s s'. P s \<Longrightarrow> fn path n err s = Inr s' \<Longrightarrow> P s'"
    and "P s" and "walk fn path n s = Inr s'"
  shows "P s'"
  using walk_preserves_aux(1) [of P fn s path n s'] assms by blast

lemma Add_Inr: "Add m path hash =
  Inr \<lparr>Files = Some (AList.update (normalize_path path) hash (case Files m of None \<Rightarrow> [] | Some fs \<Rightarrow> fs))\<rparr>"
  by (cases "Files m") (simp_all add: Add_def map_assign_def)

lemma WriteHeader_Inr:
  "WriteHeader tw hdr = Inr tw' \<longleftrightarrow>
     remaining tw = 0 \<and> tw' = \<lparr>entries = entries tw @ [(hdr, [])],
        remaining = (if Typeflag hdr = TypeDir then 0 else nat (Size hdr))\<rparr>"
  by (auto simp: WriteHeader_def)

lemma append_body_snoc: "append_body (es @ [(h, d)]) b = es @ [(h, d @ b)]"
proof (induction es)
  case Nil
  show ?case by simp
next
  case (Cons e es)
  then show ?case by (cases es) auto
qed

lemma Write_Inr:
  "Write tw b = Inr tw' \<longleftrightarrow>
     length b \<le> remaining tw \<and> tw' = \<lparr>entries = append_body (entries tw) b,
        remaining = remaining tw - length b\<rparr>"
  by (auto simp: Write_def)

lemma read_file_size:
  assumes "stat n = Inr info" and "read_file n = Inr x"
  shows "Size_of info = length x"
  using assms
  by (auto simp: read_file_def split: node.splits option.splits)

lemma walkFn_Inr:
  assumes "walkFn H directory path linfo err s = Inr s'"
  shows "\<exists>rel. relativePath_of directory path = Inr rel
     \<and> v_allPaths s' = v_allPaths s @ [rel]
     \<and> (if Has (v_m s) rel
         then v_m s' = v_m s \<and> v_tw s' = v_tw s \<and> v_count s' = v_count s
         else (\<exists>i h b. Add (v_m s) rel i = Inr (v_m s') \<and> v_count s' = v_count s + 1
                 \<and> remaining (v_tw s) = 0
                 \<and> entries (v_tw s') = entries (v_tw s) @ [(h, b)]
                 \<and> remaining (v_tw s') = 0
                 \<and> Name h = Join [BasePath, rel] \<and> Mode h = 365))"
proof -
  from assms have e: "err = None"
    by (cases err) (simp_all add: walkFn_def)
  from assms e obtain info i rel where
    st: "stat linfo = Inr info" and
    va: "Value H linfo info = Inr i" and
    re: "relativePath_of directory path = Inr rel" and
    body: "(let s1 = s\<lparr>v_allPaths := v_allPaths s @ [rel]\<rparr> in
              if Has (v_m s1) rel then Inr s1
              else
                seq (Add (v_m s1) rel i) (\<lambda>m'.
                  let s2 = s1\<lparr>v_count := v_count s1 + 1, v_m := m'\<rparr>;
                      newPath = Join [BasePath, rel]
                  in
                    if IsDir info then
                      seq (WriteHeader (v_tw s2)
                             \<lparr>Name = newPath, Size = 0, Typeflag = TypeDir, Mode = 365\<rparr>)
                        (\<lambda>tw'. Inr (s2\<lparr>v_tw := tw'\<rparr>))
                    else
                      seq (read_file linfo) (\<lambda>file.
                      seq (WriteHeader (v_tw s2)
                             \<lparr>Name = newPath, Size = int (Size_of info), Typeflag = TypeReg,
                              Mode = 365\<rparr>) (\<lambda>tw'.
                      seq (Write tw' file) (\<lambda>tw''. Inr (s2\<lparr>v_tw := tw''\<rparr>)))))) = Inr s'"
    unfolding walkFn_def by (auto simp: seq_eq_Inr)
  show ?thesis
  proof (cases "Has (v_m s) rel")
    case True
    with body re show ?thesis by (intro exI [of _ rel]) auto
  next
    case False
    show ?thesis
    proof (cases "IsDir info")
      case True
      with body False re show ?thesis
        by (intro exI [of _ rel]) (auto simp: Add_Inr WriteHeader_Inr seq_eq_Inr Let_def)
    next
      case nd: False
      with body False st re show ?thesis
        by (intro exI [of _ rel])
           (auto simp: Add_Inr WriteHeader_Inr Write_Inr seq_eq_Inr Let_def append_body_snoc
              dest: read_file_size)
    qed
  qed
qed

section \<open>The manifest operations\<close>

text \<open>
  C10.  On the zero value of \<open>Manifest\<close>, whose map is nil, no operation faults: \<open>Has\<close>
  is false for every path, \<open>Remove\<close> changes nothing, \<open>Missing\<close> returns the empty list
  for every list of paths and every order of the range, and \<open>Add\<close> does not panic on
  the nil map but returns the manifest whose map has the one entry added.
\<close>

theorem zero_Manifest_total:
  "Has \<lparr>Files = None\<rparr> path = False
   \<and> Remove \<lparr>Files = None\<rparr> path = \<lparr>Files = None\<rparr>
   \<and> Missing rng \<lparr>Files = None\<rparr> paths = []
   \<and> Add \<lparr>Files = None\<rparr> path hash = Inr \<lparr>Files = Some [(normalize_path path, hash)]\<rparr>"
  by (simp add: Has_def Remove_def Missing_def Add_def map_assign_def)

text \<open>
  C1.  For every manifest and every list of walked paths, whatever the order in which
  the range visits the map, the keys \<open>Missing\<close> returns are exactly the keys of the
  manifest that are not the normalized form of a walked path; the list is sorted
  ascending (bytewise lexicographic order) and has every such key once; no normalized
  walked path is in it.
\<close>

theorem Missing_exact:
  assumes "range_ok rng" and "wf_Manifest m"
  shows "set (Missing rng m paths) = {k \<in> keys m. k \<notin> normalize_path ` set paths}
     \<and> sorted (Missing rng m paths)
     \<and> distinct (Missing rng m paths)
     \<and> (\<forall>p \<in> set paths. normalize_path p \<notin> set (Missing rng m paths))"
proof (cases "Files m")
  case None
  then show ?thesis
    by (simp add: Missing_def keys_def)
next
  case (Some fs)
  have s: "set (map fst (rng fs)) = fst ` set fs"
    using range_ok_set [OF assms(1), of fs] by simp
  have d: "distinct (map fst (rng fs))"
    using assms Some range_ok_distinct [of rng fs] by (simp add: wf_Manifest_def)
  have 1: "set (Missing rng m paths) = {k \<in> keys m. k \<notin> normalize_path ` set paths}"
    using s Some by (auto simp: Missing_def keys_def)
  have 2: "sorted (Missing rng m paths)"
    by (simp add: Missing_def)
  have 3: "distinct (Missing rng m paths)"
    using d Some by (simp add: Missing_def)
  from 1 2 3 show ?thesis by blast
qed

theorem Missing_exact_witness:
  "range_ok rev \<and> wf_Manifest M_ex
   \<and> Missing rev M_ex [''a/''] = [''a/b'', ''b'']
   \<and> set (Missing rev M_ex [''a/'']) = {k \<in> keys M_ex. k \<notin> normalize_path ` set [''a/'']}
   \<and> sorted (Missing rev M_ex [''a/''])
   \<and> distinct (Missing rev M_ex [''a/''])
   \<and> normalize_path ''a/'' \<notin> set (Missing rev M_ex [''a/''])"
proof -
  have r: "range_ok rev"
    by (simp add: range_ok_def)
  have w: "wf_Manifest M_ex"
    by (simp add: wf_Manifest_def M_ex_def)
  have e: "Missing rev M_ex [''a/''] = [''a/b'', ''b'']"
    unfolding M_ex_def by code_simp
  from r w e Missing_exact [OF r w, of "[''a/'']"] show ?thesis
    by simp
qed

section \<open>Facts about the manifest operations\<close>

lemma keys_lookup: "k \<in> keys m \<longleftrightarrow> lookup m k \<noteq> None"
  by (cases "Files m") (auto simp: keys_def lookup_def map_of_eq_None_iff)

lemma Has_keys: "Has m p \<longleftrightarrow> normalize_path p \<in> keys m"
  by (cases "Files m") (auto simp: Has_def keys_def map_of_eq_None_iff)

lemma lookup_Add:
  "Add m p h = Inr m' \<Longrightarrow> lookup m' k = (if k = normalize_path p then Some h else lookup m k)"
  by (cases "Files m") (auto simp: Add_Inr lookup_def update_conv')

lemma keys_Add: "Add m p h = Inr m' \<Longrightarrow> keys m' = insert (normalize_path p) (keys m)"
  by (auto simp: keys_lookup lookup_Add split: if_splits)

lemma wf_Add: "Add m p h = Inr m' \<Longrightarrow> wf_Manifest m \<Longrightarrow> wf_Manifest m'"
  by (cases "Files m") (auto simp: Add_Inr wf_Manifest_def distinct_update)

lemma lookup_Remove:
  "lookup (Remove m p) k = (if k = normalize_path p then None else lookup m k)"
  by (cases "Files m") (auto simp: Remove_def lookup_def delete_conv')

lemma keys_Remove: "keys (Remove m p) = keys m - {normalize_path p}"
  by (auto simp: keys_lookup lookup_Remove split: if_splits)

lemma wf_Remove: "wf_Manifest m \<Longrightarrow> wf_Manifest (Remove m p)"
  by (cases "Files m") (auto simp: Remove_def wf_Manifest_def distinct_delete)

lemma keys_removed: "keys (removed m xs) = keys m - normalize_path ` set xs"
  by (induction m xs rule: removed.induct) (auto simp: keys_Remove)

lemma lookup_removed:
  "lookup (removed m xs) k = (if k \<in> normalize_path ` set xs then None else lookup m k)"
  by (induction m xs rule: removed.induct) (auto simp: lookup_Remove)

section \<open>The loop over the missing paths\<close>

lemma whiteouts_Inr:
  assumes "remaining (v_tw s) = 0"
  shows "whiteouts ms s =
     Inr (s\<lparr>v_count := v_count s + int (length ms),
            v_m := removed (v_m s) ms,
            v_tw := \<lparr>entries = entries (v_tw s) @ map whiteout_entry (marked (v_m s) ms),
                     remaining = 0\<rparr>\<rparr>)"
  using assms
proof (induction ms arbitrary: s)
  case Nil
  then show ?case by simp
next
  case (Cons x xs)
  let ?s1 = "s\<lparr>v_count := v_count s + 1, v_m := Remove (v_m s) x\<rparr>"
  show ?case
  proof (cases "Has (Remove (v_m s) x) (Dir x)")
    case False
    have "whiteouts (x # xs) s = whiteouts xs ?s1"
      using False by (simp add: Let_def)
    also have "\<dots> = Inr (?s1\<lparr>v_count := v_count ?s1 + int (length xs),
            v_m := removed (v_m ?s1) xs,
            v_tw := \<lparr>entries = entries (v_tw ?s1) @ map whiteout_entry (marked (v_m ?s1) xs),
                     remaining = 0\<rparr>\<rparr>)"
      using Cons.prems by (intro Cons.IH) simp
    finally show ?thesis using False by simp
  next
    case True
    let ?tw = "\<lparr>entries = entries (v_tw s) @ [whiteout_entry x], remaining = 0\<rparr>"
    let ?s2 = "?s1\<lparr>v_tw := ?tw\<rparr>"
    have "whiteouts (x # xs) s = whiteouts xs ?s2"
      using True Cons.prems by (simp add: Let_def WriteHeader_def whiteout_entry_def)
    also have "\<dots> = Inr (?s2\<lparr>v_count := v_count ?s2 + int (length xs),
            v_m := removed (v_m ?s2) xs,
            v_tw := \<lparr>entries = entries (v_tw ?s2) @ map whiteout_entry (marked (v_m ?s2) xs),
                     remaining = 0\<rparr>\<rparr>)"
      by (intro Cons.IH) simp
    finally show ?thesis using True by simp
  qed
qed

lemma length_marked: "length (marked m xs) \<le> length xs"
  by (induction m xs rule: marked.induct) auto

section \<open>Invariants of the walk\<close>

lemma walkFn_tw_inv:
  assumes "tw_inv s" and "walkFn H directory path n err s = Inr s'"
  shows "tw_inv s'"
proof -
  from walkFn_Inr [OF assms(2)] obtain rel where
    r: "if Has (v_m s) rel
         then v_m s' = v_m s \<and> v_tw s' = v_tw s \<and> v_count s' = v_count s
         else (\<exists>i h b. Add (v_m s) rel i = Inr (v_m s') \<and> v_count s' = v_count s + 1
                 \<and> remaining (v_tw s) = 0
                 \<and> entries (v_tw s') = entries (v_tw s) @ [(h, b)]
                 \<and> remaining (v_tw s') = 0
                 \<and> Name h = Join [BasePath, rel] \<and> Mode h = 365)"
    by blast
  show ?thesis
  proof (cases "Has (v_m s) rel")
    case True
    with r assms(1) show ?thesis by (simp add: tw_inv_def)
  next
    case False
    with r assms(1) show ?thesis by (auto simp: tw_inv_def)
  qed
qed

lemma walked_tw_inv:
  assumes "walked H directory tree m = Inr s"
  shows "tw_inv s"
proof -
  let ?s0 = "\<lparr>v_m = m, v_tw = NewWriter, v_count = 0, v_allPaths = []\<rparr>"
  have 0: "tw_inv ?s0"
    by (simp add: tw_inv_def NewWriter_def)
  have w: "walk (walkFn H directory) directory (sort_entries tree) ?s0 = Inr s"
    using assms by (simp add: walked_def Walk_def)
  show ?thesis
    by (rule walk_preserves [where P = tw_inv, OF _ 0 w]) (rule walkFn_tw_inv)
qed

lemma included_snoc:
  "included K (qs @ [q]) =
     included K qs @ (if normalize_path q \<in> K \<union> normalize_path ` set qs then [] else [q])"
  by (induction qs arbitrary: K) auto

lemma included_not_key: "q \<in> set (included K qs) \<Longrightarrow> normalize_path q \<notin> K"
  by (induction qs arbitrary: K) (auto split: if_splits)

lemma included_subset: "set (included K qs) \<subseteq> set qs"
  by (induction qs arbitrary: K) (auto split: if_splits)

lemma walkFn_walk_inv:
  assumes "walk_inv m0 s" and "walkFn H directory path n err s = Inr s'"
  shows "walk_inv m0 s'"
proof -
  from walkFn_Inr [OF assms(2)] obtain rel where
    ap: "v_allPaths s' = v_allPaths s @ [rel]" and
    r: "if Has (v_m s) rel
         then v_m s' = v_m s \<and> v_tw s' = v_tw s \<and> v_count s' = v_count s
         else (\<exists>i h b. Add (v_m s) rel i = Inr (v_m s') \<and> v_count s' = v_count s + 1
                 \<and> remaining (v_tw s) = 0
                 \<and> entries (v_tw s') = entries (v_tw s) @ [(h, b)]
                 \<and> remaining (v_tw s') = 0
                 \<and> Name h = Join [BasePath, rel] \<and> Mode h = 365)"
    by blast
  have k: "keys (v_m s) = keys m0 \<union> normalize_path ` set (v_allPaths s)"
    and l: "\<And>k. k \<in> keys m0 \<Longrightarrow> lookup (v_m s) k = lookup m0 k"
    and e: "map (\<lambda>e. Name (fst e)) (entries (v_tw s)) =
          map (\<lambda>q. Join [BasePath, q]) (included (keys m0) (v_allPaths s))"
    and w: "wf_Manifest m0 \<Longrightarrow> wf_Manifest (v_m s)"
    using assms(1) by (auto simp: walk_inv_def)
  show ?thesis
  proof (cases "Has (v_m s) rel")
    case True
    then have in_k: "normalize_path rel \<in> keys m0 \<union> normalize_path ` set (v_allPaths s)"
      using k by (simp add: Has_keys)
    from True r have same: "v_m s' = v_m s" "v_tw s' = v_tw s"
      by auto
    have "keys (v_m s') = keys m0 \<union> normalize_path ` set (v_allPaths s')"
      using same k in_k ap by auto
    moreover have "\<forall>k. k \<in> keys m0 \<longrightarrow> lookup (v_m s') k = lookup m0 k"
      using same l by simp
    moreover have "map (\<lambda>e. Name (fst e)) (entries (v_tw s')) =
          map (\<lambda>q. Join [BasePath, q]) (included (keys m0) (v_allPaths s'))"
      using same e in_k ap by (simp add: included_snoc)
    moreover have "wf_Manifest m0 \<longrightarrow> wf_Manifest (v_m s')"
      using same w by simp
    ultimately show ?thesis
      unfolding walk_inv_def by blast
  next
    case False
    then have not_k: "normalize_path rel \<notin> keys m0 \<union> normalize_path ` set (v_allPaths s)"
      using k by (simp add: Has_keys)
    from False r obtain i h b where
      add: "Add (v_m s) rel i = Inr (v_m s')" and
      en: "entries (v_tw s') = entries (v_tw s) @ [(h, b)]" and
      nm: "Name h = Join [BasePath, rel]"
      by auto
    have "keys (v_m s') = keys m0 \<union> normalize_path ` set (v_allPaths s')"
      using keys_Add [OF add] k ap by auto
    moreover have "\<forall>k. k \<in> keys m0 \<longrightarrow> lookup (v_m s') k = lookup m0 k"
      using lookup_Add [OF add] l not_k by auto
    moreover have "map (\<lambda>e. Name (fst e)) (entries (v_tw s')) =
          map (\<lambda>q. Join [BasePath, q]) (included (keys m0) (v_allPaths s'))"
      using en nm e not_k ap by (simp add: included_snoc)
    moreover have "wf_Manifest m0 \<longrightarrow> wf_Manifest (v_m s')"
      using wf_Add [OF add] w by blast
    ultimately show ?thesis
      unfolding walk_inv_def by blast
  qed
qed

lemma walked_walk_inv:
  assumes "walked H directory tree m = Inr s"
  shows "walk_inv m s"
proof -
  let ?s0 = "\<lparr>v_m = m, v_tw = NewWriter, v_count = 0, v_allPaths = []\<rparr>"
  have 0: "walk_inv m ?s0"
    by (simp add: walk_inv_def NewWriter_def)
  have w: "walk (walkFn H directory) directory (sort_entries tree) ?s0 = Inr s"
    using assms by (simp add: walked_def Walk_def)
  show ?thesis
    by (rule walk_preserves [where P = "walk_inv m", OF _ 0 w]) (rule walkFn_walk_inv)
qed

lemma writeNewFiles_walked:
  assumes "walked H directory tree m = Inr s"
  shows "writeNewFiles rng H directory tree m =
     Inr (\<lparr>entries = entries (v_tw s) @
              map whiteout_entry (marked (v_m s) (Missing rng (v_m s) (v_allPaths s))),
           remaining = 0\<rparr>,
          v_count s + int (length (Missing rng (v_m s) (v_allPaths s))),
          removed (v_m s) (Missing rng (v_m s) (v_allPaths s)))"
proof -
  have "remaining (v_tw s) = 0"
    using walked_tw_inv [OF assms] by (simp add: tw_inv_def)
  then show ?thesis
    using assms by (simp add: writeNewFiles_def whiteouts_Inr)
qed

lemma writeNewFiles_Inr_walked:
  assumes "writeNewFiles rng H directory tree m = Inr r"
  shows "\<exists>s. walked H directory tree m = Inr s"
  using assms by (auto simp: writeNewFiles_def seq_eq_Inr)

section \<open>Splitting and joining\<close>

lemma split_sep_not_Nil [simp]: "split_sep s \<noteq> []"
  by (induction s) (auto split: list.splits)

lemma split_sep_no_sep: "CHR ''/'' \<notin> set e \<Longrightarrow> split_sep e = [e]"
  by (induction e) auto

lemma split_sep_append:
  "CHR ''/'' \<notin> set e \<Longrightarrow> split_sep (e @ CHR ''/'' # s) = e # split_sep s"
  by (induction e) auto

lemma split_sep_elems: "e \<in> set (split_sep s) \<Longrightarrow> CHR ''/'' \<notin> set e"
proof (induction s arbitrary: e)
  case Nil
  then show ?case by simp
next
  case (Cons c cs)
  then show ?case
    by (cases "split_sep cs") (auto split: if_splits)
qed

lemma split_join:
  "es \<noteq> [] \<Longrightarrow> \<forall>e \<in> set es. CHR ''/'' \<notin> set e \<Longrightarrow> split_sep (join_sep es) = es"
proof (induction es rule: join_sep.induct)
  case 1
  then show ?case by simp
next
  case (2 e)
  then show ?case by (simp add: split_sep_no_sep)
next
  case (3 e v va)
  then show ?case by (simp add: split_sep_append)
qed

lemma join_sep_snoc:
  "join_sep (xs @ [e]) = (if xs = [] then e else join_sep xs @ CHR ''/'' # e)"
  by (induction xs rule: join_sep.induct) auto

lemma join_sep_Nil_iff: "list_all elem_ok st \<Longrightarrow> join_sep st = [] \<longleftrightarrow> st = []"
  by (induction st rule: join_sep.induct) (auto simp: elem_ok_def)

lemma hd_elem_ok: "elem_ok e \<Longrightarrow> hd e \<noteq> CHR ''/''"
  by (cases e) (auto simp: elem_ok_def)

lemma hd_join_sep: "list_all elem_ok st \<Longrightarrow> st \<noteq> [] \<Longrightarrow> hd (join_sep st) \<noteq> CHR ''/''"
proof (induction st rule: join_sep.induct)
  case 1
  then show ?case by simp
next
  case (2 e)
  then show ?case by (simp add: hd_elem_ok)
next
  case (3 e v va)
  then have "elem_ok e" by simp
  then show ?case
    using hd_elem_ok [of e] by (simp add: hd_append elem_ok_def)
qed

section \<open>The stack of Clean\<close>

lemma dots_first_append:
  "dots_first (xs @ ys) \<Longrightarrow> dots_first xs"
  by (induction xs) (auto split: if_splits)

lemma dots_first_snoc_dots:
  "dots_first (st @ [''..'']) \<longleftrightarrow> set st \<subseteq> {''..''}"
  by (induction st) auto

lemma dots_first_snoc_other:
  "e \<noteq> ''..'' \<Longrightarrow> dots_first (st @ [e]) \<longleftrightarrow> dots_first st"
  by (induction st) auto

lemma dots_first_last:
  "dots_first st \<Longrightarrow> st \<noteq> [] \<Longrightarrow> last st = ''..'' \<Longrightarrow> set st \<subseteq> {''..''}"
proof (induction st)
  case Nil
  then show ?case by simp
next
  case (Cons a st)
  show ?case
  proof (cases "st = []")
    case True
    then show ?thesis using Cons.prems by simp
  next
    case False
    then have l: "last st = ''..''" and m: "''..'' \<in> set st"
      using Cons.prems(3) last_in_set [of st] by auto
    then have "a = ''..''" and "dots_first st"
      using Cons.prems(1) by (auto split: if_splits)
    then show ?thesis
      using Cons.IH False l by simp
  qed
qed

lemma stack_ok_Nil [simp]: "stack_ok r []"
  by (simp add: stack_ok_def)

lemma stack_ok_prefix: "stack_ok r (xs @ ys) \<Longrightarrow> stack_ok r xs"
  by (auto simp: stack_ok_def dest: dots_first_append)

lemma stack_ok_butlast: "stack_ok r st \<Longrightarrow> stack_ok r (butlast st)"
  by (cases st rule: rev_cases) (auto dest: stack_ok_prefix)

lemma stack_ok_step:
  assumes "stack_ok r st" and "CHR ''/'' \<notin> set e"
  shows "stack_ok r (clean_step r st e)"
proof -
  consider (drop) "e = [] \<or> e = ''.''" | (dots) "e = ''..''" | (name) "e \<noteq> [] \<and> e \<noteq> ''.'' \<and> e \<noteq> ''..''"
    by blast
  then show ?thesis
  proof cases
    case drop
    then show ?thesis using assms by (auto simp: clean_step_def)
  next
    case dots
    show ?thesis
    proof (cases "st \<noteq> [] \<and> last st \<noteq> ''..''")
      case True
      then show ?thesis
        using dots assms stack_ok_butlast by (simp add: clean_step_def)
    next
      case False
      show ?thesis
      proof (cases r)
        case True
        have "clean_step r st e = st"
          using dots False True by (auto simp: clean_step_def)
        then show ?thesis using assms(1) by simp
      next
        case nr: False
        have "set st \<subseteq> {''..''}"
        proof (cases "st = []")
          case True
          then show ?thesis by simp
        next
          case ne: False
          then have "last st = ''..''" using False by simp
          moreover have "dots_first st" using assms(1) nr by (simp add: stack_ok_def)
          ultimately show ?thesis using ne by (rule_tac dots_first_last)
        qed
        then have "dots_first (st @ [''..''])"
          by (simp add: dots_first_snoc_dots)
        then show ?thesis
          using dots False nr assms by (auto simp: clean_step_def stack_ok_def elem_ok_def)
      qed
    qed
  next
    case name
    then show ?thesis
      using assms by (auto simp: clean_step_def stack_ok_def elem_ok_def dots_first_snoc_other)
  qed
qed

lemma stack_ok_foldl:
  "stack_ok r st \<Longrightarrow> \<forall>e \<in> set es. CHR ''/'' \<notin> set e \<Longrightarrow> stack_ok r (foldl (clean_step r) st es)"
  by (induction es arbitrary: st) (auto intro: stack_ok_step)

lemma clean_step_push:
  assumes "stack_ok r (st @ [e])"
  shows "clean_step r st e = st @ [e]"
proof (cases "e = ''..''")
  case True
  then have nr: "\<not> r" and d: "set st \<subseteq> {''..''}"
    using assms by (auto simp: stack_ok_def dots_first_snoc_dots split: if_splits)
  have "st = [] \<or> last st = ''..''"
  proof (cases "st = []")
    case True
    then show ?thesis by simp
  next
    case False
    then have "last st \<in> set st" by simp
    then show ?thesis using d by auto
  qed
  then show ?thesis
    using True nr by (auto simp: clean_step_def)
next
  case False
  then show ?thesis
    using assms by (auto simp: clean_step_def stack_ok_def elem_ok_def)
qed

lemma foldl_clean_fix:
  "stack_ok r (st @ es) \<Longrightarrow> foldl (clean_step r) st es = st @ es"
proof (induction es arbitrary: st)
  case Nil
  then show ?case by simp
next
  case (Cons e es)
  have "stack_ok r ((st @ [e]) @ es)"
    using Cons.prems by simp
  then have "stack_ok r (st @ [e])"
    by (rule stack_ok_prefix)
  then have "clean_step r st e = st @ [e]"
    by (rule clean_step_push)
  then show ?case
    using Cons.IH [of "st @ [e]"] Cons.prems by simp
qed

section \<open>Clean, Dir and Join on clean paths\<close>

lemma stack_ok_clean: "stack_ok r (foldl (clean_step r) [] (split_sep s))"
proof (rule stack_ok_foldl)
  show "stack_ok r []" by simp
  show "\<forall>e \<in> set (split_sep s). CHR ''/'' \<notin> set e"
    using split_sep_elems by blast
qed

lemma Clean_rooted:
  "Clean (CHR ''/'' # s) = CHR ''/'' # join_sep (foldl (clean_step True) [] (split_sep s))"
  by (simp add: Clean_def clean_step_def)

lemma Clean_unrooted:
  assumes "c \<noteq> CHR ''/''"
  shows "Clean (c # s) = render False (foldl (clean_step False) [] (split_sep (c # s)))"
proof -
  let ?st = "foldl (clean_step False) [] (split_sep (c # s))"
  have "stack_ok False ?st"
    by (rule stack_ok_clean)
  then have "join_sep ?st = [] \<longleftrightarrow> ?st = []"
    by (intro join_sep_Nil_iff) (simp add: stack_ok_def)
  then show ?thesis
    using assms by (simp add: Clean_def render_def Let_def)
qed

lemma Clean_is_render: "\<exists>r st. stack_ok r st \<and> Clean p = render r st"
proof (cases p)
  case Nil
  have "stack_ok False [] \<and> Clean [] = render False []"
    by (simp add: Clean_def render_def)
  then show ?thesis using Nil by blast
next
  case (Cons c s)
  show ?thesis
  proof (cases "c = CHR ''/''")
    case True
    let ?st = "foldl (clean_step True) [] (split_sep s)"
    have "stack_ok True ?st"
      by (rule stack_ok_clean)
    moreover have "Clean p = render True ?st"
      using Cons True by (simp add: Clean_rooted render_def)
    ultimately show ?thesis by blast
  next
    case False
    let ?st = "foldl (clean_step False) [] (split_sep (c # s))"
    have "stack_ok False ?st"
      by (rule stack_ok_clean)
    moreover have "Clean p = render False ?st"
      using Cons False by (simp add: Clean_unrooted)
    ultimately show ?thesis by blast
  qed
qed

lemma no_sep_elems: "stack_ok r st \<Longrightarrow> \<forall>e \<in> set st. CHR ''/'' \<notin> set e"
  by (auto simp: stack_ok_def elem_ok_def list_all_iff)

lemma foldl_clean_empty_first:
  "foldl (clean_step r) [] ([] # es) = foldl (clean_step r) [] es"
  by (simp add: clean_step_def)

lemma Clean_render:
  assumes "stack_ok r st"
  shows "Clean (render r st) = render r st"
proof (cases r)
  case True
  show ?thesis
  proof (cases "st = []")
    case e: True
    have "Clean ''/'' = ''/''" by code_simp
    then show ?thesis using True e by (simp add: render_def)
  next
    case ne: False
    have "split_sep (join_sep st) = st"
      using ne no_sep_elems [OF assms] by (rule split_join)
    moreover have "foldl (clean_step True) [] st = st"
      using foldl_clean_fix [of True "[]" st] assms True by simp
    ultimately show ?thesis
      using True by (simp add: render_def Clean_rooted)
  qed
next
  case False
  show ?thesis
  proof (cases "st = []")
    case e: True
    have "Clean ''.'' = ''.''" by code_simp
    then show ?thesis using False e by (simp add: render_def)
  next
    case ne: False
    have ok: "list_all elem_ok st"
      using assms by (simp add: stack_ok_def)
    have sp: "split_sep (join_sep st) = st"
      using ne no_sep_elems [OF assms] by (rule split_join)
    have fx: "foldl (clean_step False) [] st = st"
      using foldl_clean_fix [of False "[]" st] assms False by simp
    have nn: "join_sep st \<noteq> []"
      using ok ne by (simp add: join_sep_Nil_iff)
    then obtain c s where cs: "join_sep st = c # s"
      by (cases "join_sep st") auto
    have "c \<noteq> CHR ''/''"
      using hd_join_sep [OF ok ne] cs by simp
    then have "Clean (c # s) = render False (foldl (clean_step False) [] (split_sep (c # s)))"
      by (rule Clean_unrooted)
    then show ?thesis
      using False ne cs sp fx by (simp add: render_def)
  qed
qed

lemma Clean_idem: "Clean (Clean p) = Clean p"
  using Clean_is_render [of p] Clean_render by auto

lemma clean_form: "Clean p = p \<Longrightarrow> \<exists>r st. stack_ok r st \<and> p = render r st"
  using Clean_is_render [of p] by auto

lemma normalize_path_idem: "normalize_path (normalize_path p) = normalize_path p"
  by (simp add: normalize_path_def Clean_idem)

text \<open>The part of a path that \<open>Dir\<close> cleans.\<close>

lemma dirpart_name:
  "CHR ''/'' \<notin> set e \<Longrightarrow> rev (dropWhile (\<lambda>c. c \<noteq> CHR ''/'') (rev e)) = []"
  by (auto simp: dropWhile_eq_Nil_conv)

lemma dirpart_append:
  assumes "CHR ''/'' \<notin> set e"
  shows "rev (dropWhile (\<lambda>c. c \<noteq> CHR ''/'') (rev (pre @ CHR ''/'' # e))) = pre @ [CHR ''/'']"
proof -
  have "dropWhile (\<lambda>c. c \<noteq> CHR ''/'') (rev e @ CHR ''/'' # rev pre) = CHR ''/'' # rev pre"
    using assms by (subst dropWhile_append2) auto
  then show ?thesis by simp
qed

lemma Dir_render:
  assumes "stack_ok r st"
  shows "Dir (render r st) = render r (butlast st)"
proof (cases st rule: rev_cases)
  case Nil
  have "Dir ''/'' = ''/''" and "Dir ''.'' = ''.''"
    by code_simp+
  then show ?thesis
    using Nil by (cases r) (simp_all add: render_def)
next
  case (snoc xs e)
  have e: "CHR ''/'' \<notin> set e"
    using assms snoc by (auto simp: stack_ok_def elem_ok_def)
  have xs: "stack_ok r xs"
    using assms snoc stack_ok_prefix by blast
  have cl: "Clean (render r xs) = render r xs"
    using xs by (rule Clean_render)
  show ?thesis
  proof (cases "xs = []")
    case True
    have "Dir e = ''.''"
      using e by (simp add: Dir_def dirpart_name Clean_def)
    moreover have "Dir (CHR ''/'' # e) = ''/''"
    proof -
      have "rev (dropWhile (\<lambda>c. c \<noteq> CHR ''/'') (rev ([] @ CHR ''/'' # e))) = [] @ [CHR ''/'']"
        using e by (rule dirpart_append)
      moreover have "Clean ''/'' = ''/''" by code_simp
      ultimately show ?thesis by (simp add: Dir_def)
    qed
    ultimately show ?thesis
      using True snoc by (cases r) (simp_all add: render_def)
  next
    case False
    have j: "join_sep (xs @ [e]) = join_sep xs @ CHR ''/'' # e"
      using False by (simp add: join_sep_snoc)
    have sl: "join_sep xs @ [CHR ''/''] = join_sep (xs @ [[]])"
      using False by (simp add: join_sep_snoc)
    have sp: "split_sep (join_sep (xs @ [[]])) = xs @ [[]]"
      using no_sep_elems [OF xs] by (intro split_join) auto
    have fx: "foldl (clean_step r) [] (xs @ [[]]) = xs"
      using foldl_clean_fix [of r "[]" xs] xs by (simp add: clean_step_def)
    have ok: "list_all elem_ok xs"
      using xs by (simp add: stack_ok_def)
    show ?thesis
    proof (cases r)
      case True
      have "rev (dropWhile (\<lambda>c. c \<noteq> CHR ''/'') (rev ((CHR ''/'' # join_sep xs) @ CHR ''/'' # e)))
            = (CHR ''/'' # join_sep xs) @ [CHR ''/'']"
        using e by (rule dirpart_append)
      then have "Dir (render r st) = Clean (CHR ''/'' # join_sep (xs @ [[]]))"
        using True snoc j sl by (simp add: Dir_def render_def)
      also have "\<dots> = CHR ''/'' # join_sep xs"
        using sp fx True by (simp add: Clean_rooted)
      finally show ?thesis
        using True snoc by (simp add: render_def)
    next
      case nr: False
      have "rev (dropWhile (\<lambda>c. c \<noteq> CHR ''/'') (rev (join_sep xs @ CHR ''/'' # e)))
            = join_sep xs @ [CHR ''/'']"
        using e by (rule dirpart_append)
      then have d: "Dir (render r st) = Clean (join_sep (xs @ [[]]))"
        using nr snoc j sl by (simp add: Dir_def render_def)
      have nn: "join_sep xs \<noteq> []"
        using ok False by (simp add: join_sep_Nil_iff)
      then obtain c t where ct: "join_sep xs = c # t"
        by (cases "join_sep xs") auto
      define s where "s = t @ [CHR ''/'']"
      have cs: "join_sep (xs @ [[]]) = c # s" and c: "c = hd (join_sep xs)"
        using sl [symmetric] ct by (simp_all add: s_def)
      have "c \<noteq> CHR ''/''"
        using hd_join_sep [OF ok False] c by simp
      then have "Clean (c # s) = render False (foldl (clean_step False) [] (split_sep (c # s)))"
        by (rule Clean_unrooted)
      then have "Clean (join_sep (xs @ [[]])) = render False xs"
        using cs sp fx nr by simp
      then show ?thesis
        using d nr snoc False by (simp add: render_def)
    qed
  qed
qed

section \<open>The changed count\<close>

text \<open>
  C3, as the code has it.  The count \<open>writeNewFiles\<close> returns is the number of entries
  the walk includes in the layer plus the number of missing paths: every missing path is
  counted, also one for which no marker is written.  The layer holds the entries of the
  walk followed by the markers written, so it never has more entries than the count.
  When the count is zero, \<open>main\<close> returns at once: it builds no manifest layer and
  pushes nothing.
\<close>

theorem changed_count:
  assumes "directory \<noteq> []" and "tag \<noteq> []"
    and "NewTag R tag = Inr targetTag"
    and "findBaseImage R targetTag = Inr (base, m)"
    and "walked H directory tree m = Inr s"
    and "writeNewFiles rng H directory tree m = Inr (layer, delta, m')"
  shows "delta = int (length (entries (v_tw s)))
                 + int (length (Missing rng (v_m s) (v_allPaths s)))
     \<and> entries layer = entries (v_tw s)
          @ map whiteout_entry (marked (v_m s) (Missing rng (v_m s) (v_allPaths s)))
     \<and> int (length (entries layer)) \<le> delta
     \<and> (delta = 0 \<longrightarrow> main R rng rng' H directory tag tree = NoChange)"
proof -
  let ?ms = "Missing rng (v_m s) (v_allPaths s)"
  have c: "v_count s = int (length (entries (v_tw s)))"
    using walked_tw_inv [OF assms(5)] by (simp add: tw_inv_def)
  have r: "layer = \<lparr>entries = entries (v_tw s) @ map whiteout_entry (marked (v_m s) ?ms),
                    remaining = 0\<rparr>"
    and d: "delta = v_count s + int (length ?ms)"
    using writeNewFiles_walked [OF assms(5), of rng] assms(6) by simp_all
  have 1: "delta = int (length (entries (v_tw s))) + int (length ?ms)"
    using c d by simp
  have 2: "entries layer = entries (v_tw s) @ map whiteout_entry (marked (v_m s) ?ms)"
    using r by simp
  have 3: "int (length (entries layer)) \<le> delta"
    using 1 2 length_marked [of "v_m s" ?ms] by simp
  have 4: "delta = 0 \<longrightarrow> main R rng rng' H directory tag tree = NoChange"
    using assms(1-4,6) by (simp add: main_def)
  from 1 2 3 4 show ?thesis by blast
qed

lemma findBase_ex: "findBaseImage R_ex ''registry/ctx:latest'' = Inr (image_ex, M_dot)"
  unfolding R_ex_def image_ex_def M_dot_def ManifestPath_def
  by code_simp

lemma walked_dot: "walked hash_ex ''dir'' (Directory 493 []) M_dot =
   Inr \<lparr>v_m = M_dot, v_tw = NewWriter, v_count = 0, v_allPaths = [''.'']\<rparr>"
  unfolding M_dot_def
  by code_simp

lemma writeNewFiles_dot:
  "writeNewFiles id hash_ex ''dir'' (Directory 493 []) M_dot = Inr (NewWriter, 0, M_dot)"
  unfolding M_dot_def
  by code_simp

theorem changed_count_witness:
  "main R_ex id id hash_ex ''dir'' ''registry/ctx:latest'' (Directory 493 []) = NoChange
   \<and> writeNewFiles id hash_ex ''dir'' (Directory 493 []) M_dot = Inr (NewWriter, 0, M_dot)
   \<and> entries NewWriter = []"
proof -
  have n: "NewTag R_ex ''registry/ctx:latest'' = Inr ''registry/ctx:latest''"
    by (simp add: R_ex_def)
  have "(0::int) = 0 \<longrightarrow>
      main R_ex id id hash_ex ''dir'' ''registry/ctx:latest'' (Directory 493 []) = NoChange"
    using changed_count [OF _ _ n findBase_ex walked_dot writeNewFiles_dot, of id]
    by simp
  then show ?thesis
    using writeNewFiles_dot by (simp add: NewWriter_def)
qed

theorem changed_count_counterexample:
  "writeNewFiles id hash_ex ''dir'' (Directory 493 []) M_gone =
     Inr (\<lparr>entries = [(\<lparr>Name = ''/var/run/kontext/.wh.gone'', Size = 0, Typeflag = TypeReg,
                         Mode = 0\<rparr>, [])],
           remaining = 0\<rparr>,
          2,
          \<lparr>Files = Some [(''.'', [])]\<rparr>)
   \<and> (case writeNewFiles id hash_ex ''dir'' (Directory 493 []) M_gone of
         Inl e \<Rightarrow> False
       | Inr (layer, delta, m') \<Rightarrow> delta \<noteq> int (length (entries layer)))"
proof -
  have "writeNewFiles id hash_ex ''dir'' (Directory 493 []) M_gone =
     Inr (\<lparr>entries = [(\<lparr>Name = ''/var/run/kontext/.wh.gone'', Size = 0, Typeflag = TypeReg,
                         Mode = 0\<rparr>, [])],
           remaining = 0\<rparr>,
          2,
          \<lparr>Files = Some [(''.'', [])]\<rparr>)"
    unfolding M_gone_def by code_simp
  then show ?thesis by simp
qed

section \<open>The order of paths\<close>

lemma prefix_le:
  fixes a b :: string
  shows "prefix a b \<Longrightarrow> a \<le> b"
proof -
  assume "prefix a b"
  then obtain c where b: "b = a @ c"
    by (auto simp: prefix_def)
  show "a \<le> b"
  proof (cases c)
    case Nil
    then show ?thesis using b by simp
  next
    case (Cons x xs)
    then have "(a, a @ c) \<in> lexord {(u, v). u < v}"
      by (intro lexord_append_rightI) auto
    then show ?thesis
      using b by (simp add: list_le_def list_less_def)
  qed
qed

lemma join_sep_append:
  "xs \<noteq> [] \<Longrightarrow> ys \<noteq> [] \<Longrightarrow> join_sep (xs @ ys) = join_sep xs @ CHR ''/'' # join_sep ys"
  by (induction xs rule: join_sep.induct) (auto simp: neq_Nil_conv)

lemma render_butlast_le:
  "render r (butlast st) = ''.'' \<or> render r (butlast st) \<le> render r st"
proof (cases st rule: rev_cases)
  case Nil
  then show ?thesis by simp
next
  case (snoc xs e)
  have "prefix (join_sep xs) (join_sep (xs @ [e]))" if "xs \<noteq> []"
    using that by (simp add: join_sep_snoc)
  then have "render r xs = ''.'' \<or> prefix (render r xs) (render r (xs @ [e]))"
    by (cases "xs = []") (auto simp: render_def)
  then show ?thesis
    using snoc prefix_le by auto
qed

lemma Dir_le:
  assumes "Clean p = p"
  shows "Dir p = ''.'' \<or> Dir p \<le> p"
proof -
  from clean_form [OF assms] obtain r st where "stack_ok r st" and "p = render r st"
    by blast
  then show ?thesis
    using Dir_render [of r st] render_butlast_le [of r st] by simp
qed

lemma Dir_clean: "Clean (Dir p) = Dir p"
  by (simp add: Dir_def Clean_idem)

section \<open>The paths of a walk\<close>

lemma stack_ok_name: "stack_ok r st \<Longrightarrow> name_ok e \<Longrightarrow> stack_ok r (st @ [e])"
  by (auto simp: stack_ok_def name_ok_def dots_first_snoc_other)

lemma stack_ok_names: "stack_ok r st \<Longrightarrow> list_all name_ok ns \<Longrightarrow> stack_ok r (st @ ns)"
proof (induction ns arbitrary: st)
  case Nil
  then show ?case by simp
next
  case (Cons e ns)
  then have "stack_ok r ((st @ [e]) @ ns)"
    by (intro Cons.IH stack_ok_name) auto
  then show ?case by simp
qed

lemma Join_name:
  assumes "stack_ok r st" and "name_ok e"
  shows "Join [render r st, e] = render r (st @ [e])"
proof -
  have ok: "stack_ok r (st @ [e])"
    using assms by (rule stack_ok_name)
  have ne: "render r st \<noteq> []"
    using assms(1) by (auto simp: render_def join_sep_Nil_iff stack_ok_def)
  have e: "e \<noteq> []" "CHR ''/'' \<notin> set e"
    using assms(2) by (auto simp: name_ok_def elem_ok_def)
  have J: "Join [render r st, e] = Clean (render r st @ CHR ''/'' # e)"
    using ne by (simp add: Join_def)
  show ?thesis
  proof (cases "st = []")
    case False
    have "render r st @ CHR ''/'' # e = render r (st @ [e])"
      using False by (simp add: render_def join_sep_snoc)
    then show ?thesis
      using J Clean_render [OF ok] by simp
  next
    case True
    have push: "clean_step r [] e = [e]"
      using clean_step_push [of r "[]" e] ok True by simp
    show ?thesis
    proof (cases r)
      case r: True
      have "Clean (CHR ''/'' # CHR ''/'' # e) = CHR ''/'' # e"
        using push r e by (simp add: Clean_rooted split_sep_no_sep clean_step_def)
      then show ?thesis
        using J True r by (simp add: render_def)
    next
      case nr: False
      have "split_sep (''.'' @ CHR ''/'' # e) = ''.'' # split_sep e"
        by (rule split_sep_append) simp
      then have sp: "split_sep (CHR ''.'' # CHR ''/'' # e) = [''.'', e]"
        using e by (simp add: split_sep_no_sep)
      have "Clean (CHR ''.'' # CHR ''/'' # e) =
              render False (foldl (clean_step False) [] (split_sep (CHR ''.'' # CHR ''/'' # e)))"
        by (rule Clean_unrooted) simp
      also have "\<dots> = render False [e]"
        unfolding sp using push nr by (simp add: clean_step_def)
      finally show ?thesis
        using J True nr by (simp add: render_def)
    qed
  qed
qed

lemma render_append:
  assumes "st \<noteq> []" and "ns \<noteq> []"
  shows "render r (st @ ns) = render r st @ CHR ''/'' # join_sep ns"
  using assms by (simp add: render_def join_sep_append)

lemma relativePath_of_root: "relativePath_of directory directory = Inr ''.''"
  by (simp add: relativePath_of_def)

lemma relativePath_of_below:
  assumes "st \<noteq> []" and "ns \<noteq> []"
  shows "relativePath_of (render r st) (render r (st @ ns)) = Inr (join_sep ns)"
proof -
  have "render r (st @ ns) = render r st @ CHR ''/'' # join_sep ns"
    using assms by (rule render_append)
  then show ?thesis
    by (simp add: relativePath_of_def slice_from_def)
qed

lemma walkFn_allPaths:
  assumes "walkFn H directory path n err s = Inr s'"
    and "relativePath_of directory path = Inr rel"
  shows "v_allPaths s' = v_allPaths s @ [rel]"
  using walkFn_Inr [OF assms(1)] assms(2) by auto

lemma names_ok_sort: "names_ok t \<Longrightarrow> names_ok (sort_entries t)"
  by (induction t rule: sort_entries.induct) auto

lemma walk_allPaths_aux:
  fixes fn :: "string \<Rightarrow> node \<Rightarrow> error option \<Rightarrow> vars \<Rightarrow> error + vars"
  shows "fn = walkFn H (render r st) \<Longrightarrow> path = render r (st @ ns) \<Longrightarrow>
         stack_ok r st \<Longrightarrow> st \<noteq> [] \<Longrightarrow> list_all name_ok ns \<Longrightarrow> names_ok n \<Longrightarrow>
         walk fn path n s = Inr s' \<Longrightarrow>
         v_allPaths s' = v_allPaths s @
            (if ns = [] then ''.'' else join_sep ns) # map (\<lambda>ms. join_sep (ns @ ms)) (below n)"
    and "fn = walkFn H (render r st) \<Longrightarrow> path = render r (st @ ns) \<Longrightarrow>
         stack_ok r st \<Longrightarrow> st \<noteq> [] \<Longrightarrow> list_all name_ok ns \<Longrightarrow>
         (\<forall>e \<in> set kids. name_ok (fst e) \<and> names_ok (snd e)) \<Longrightarrow>
         walk_names fn path kids s = Inr s' \<Longrightarrow>
         v_allPaths s' = v_allPaths s @ map (\<lambda>ms. join_sep (ns @ ms)) (below_names kids)"
proof (induction fn path n s and fn path kids s arbitrary: ns s' and ns s'
       rule: walk_walk_names.induct)
  case (1 fn path p kids s)
  have rel: "relativePath_of (render r st) path = Inr (if ns = [] then ''.'' else join_sep ns)"
    using "1.prems"(2,4) by (simp add: relativePath_of_root relativePath_of_below)
  from "1.prems"(7) obtain s1 where a: "fn path (Directory p kids) None s = Inr s1"
    and b: "walk_names fn path kids s1 = Inr s'"
    by (auto simp: seq_eq_Inr)
  have 1: "v_allPaths s1 = v_allPaths s @ [if ns = [] then ''.'' else join_sep ns]"
    using a rel "1.prems"(1) walkFn_allPaths by blast
  have 2: "v_allPaths s' = v_allPaths s1 @ map (\<lambda>ms. join_sep (ns @ ms)) (below_names kids)"
    using "1.IH" [OF "1.prems"(1-5) _ b] "1.prems"(6) by simp
  show ?case using 1 2 by simp
next
  case (2 fn path p s)
  have rel: "relativePath_of (render r st) path = Inr (if ns = [] then ''.'' else join_sep ns)"
    using "2.prems"(2,4) by (simp add: relativePath_of_root relativePath_of_below)
  show ?case
    using "2.prems"(1,7) rel walkFn_allPaths by auto
next
  case (3 fn path p c s)
  have rel: "relativePath_of (render r st) path = Inr (if ns = [] then ''.'' else join_sep ns)"
    using "3.prems"(2,4) by (simp add: relativePath_of_root relativePath_of_below)
  show ?case
    using "3.prems"(1,7) rel walkFn_allPaths by auto
next
  case (4 fn path t s)
  have rel: "relativePath_of (render r st) path = Inr (if ns = [] then ''.'' else join_sep ns)"
    using "4.prems"(2,4) by (simp add: relativePath_of_root relativePath_of_below)
  show ?case
    using "4.prems"(1,7) rel walkFn_allPaths by auto
next
  case (5 fn path s)
  then show ?case by simp
next
  case (6 fn path e rest s)
  from "6.prems"(7) obtain s1 where a: "walk fn (Join [path, fst e]) (snd e) s = Inr s1"
    and b: "walk_names fn path rest s1 = Inr s'"
    by (auto simp: seq_eq_Inr)
  have e: "name_ok (fst e)" "names_ok (snd e)"
    and rest: "\<forall>e \<in> set rest. name_ok (fst e) \<and> names_ok (snd e)"
    using "6.prems"(6) by auto
  have ok: "stack_ok r (st @ ns)"
    using "6.prems"(3,5) by (rule stack_ok_names)
  have j: "Join [path, fst e] = render r (st @ (ns @ [fst e]))"
    using Join_name [OF ok e(1)] "6.prems"(2) by simp
  have ns': "list_all name_ok (ns @ [fst e])"
    using "6.prems"(5) e(1) by simp
  have 1: "v_allPaths s1 = v_allPaths s @
            join_sep (ns @ [fst e]) # map (\<lambda>ms. join_sep ((ns @ [fst e]) @ ms)) (below (snd e))"
    using "6.IH"(1) [OF "6.prems"(1) j "6.prems"(3,4) ns' e(2) a] by simp
  have 2: "v_allPaths s' = v_allPaths s1 @ map (\<lambda>ms. join_sep (ns @ ms)) (below_names rest)"
    using "6.IH"(2) [OF "6.prems"(1-5) rest b] .
  show ?case
    using 1 2 by (simp add: comp_def)
qed

lemma walked_allPaths:
  assumes "normalize_path directory = directory"
    and "directory \<noteq> ''.''" and "directory \<noteq> ''/''"
    and "names_ok tree"
    and "walked H directory tree m = Inr s"
  shows "v_allPaths s = ''.'' # map join_sep (below (sort_entries tree))"
proof -
  from clean_form [of directory] assms(1) obtain r st where
    ok: "stack_ok r st" and d: "directory = render r st"
    by (auto simp: normalize_path_def)
  have ne: "st \<noteq> []"
    using d assms(2,3) by (cases r) (auto simp: render_def)
  let ?s0 = "\<lparr>v_m = m, v_tw = NewWriter, v_count = 0, v_allPaths = []\<rparr>"
  have w: "walk (walkFn H (render r st)) (render r (st @ [])) (sort_entries tree) ?s0 = Inr s"
    using assms(5) d by (simp add: walked_def Walk_def)
  have "v_allPaths s = v_allPaths ?s0 @
            (if [] = ([] :: string list) then ''.'' else join_sep []) #
            map (\<lambda>ms. join_sep ([] @ ms)) (below (sort_entries tree))"
    by (rule walk_allPaths_aux(1) [OF refl refl ok ne _ names_ok_sort [OF assms(4)] w]) simp
  then show ?thesis by simp
qed

section \<open>The missing paths after a walk\<close>

lemma set_Missing:
  assumes "range_ok rng"
  shows "set (Missing rng m paths) = {k \<in> keys m. k \<notin> normalize_path ` set paths}"
proof (cases "Files m")
  case None
  then show ?thesis by (simp add: Missing_def keys_def)
next
  case (Some fs)
  have "set (map fst (rng fs)) = fst ` set fs"
    using range_ok_set [OF assms, of fs] by simp
  then show ?thesis
    using Some by (auto simp: Missing_def keys_def)
qed

lemma sorted_Missing: "sorted (Missing rng m paths)"
  by (simp add: Missing_def)

lemma distinct_Missing:
  assumes "range_ok rng" and "wf_Manifest m"
  shows "distinct (Missing rng m paths)"
proof (cases "Files m")
  case None
  then show ?thesis by (simp add: Missing_def)
next
  case (Some fs)
  have "distinct (map fst (rng fs))"
    using assms Some range_ok_distinct [of rng fs] by (simp add: wf_Manifest_def)
  then show ?thesis
    using Some by (simp add: Missing_def)
qed

lemma normalized_walked:
  assumes "normalized m" and "walked H directory tree m = Inr s"
  shows "normalized (v_m s)"
proof -
  have "keys (v_m s) = keys m \<union> normalize_path ` set (v_allPaths s)"
    using walked_walk_inv [OF assms(2)] by (simp add: walk_inv_def)
  then show ?thesis
    using assms(1) by (auto simp: normalized_def normalize_path_idem)
qed

lemma normalized_removed: "normalized m \<Longrightarrow> normalized (removed m xs)"
  by (auto simp: normalized_def keys_removed)

text \<open>The root is walked first, under the relative path \<open>.\<close>.\<close>

lemma walk_names_allPaths_mono:
  assumes "walk_names (walkFn H directory) path kids s = Inr s'"
    and "q \<in> set (v_allPaths s)"
  shows "q \<in> set (v_allPaths s')"
proof -
  have "\<forall>path n err s s'. q \<in> set (v_allPaths s) \<longrightarrow>
          walkFn H directory path n err s = Inr s' \<longrightarrow> q \<in> set (v_allPaths s')"
    using walkFn_Inr by fastforce
  then show ?thesis
    using walk_preserves_aux(2) [of "\<lambda>s. q \<in> set (v_allPaths s)" "walkFn H directory" s path kids s']
      assms by blast
qed

lemma walked_root:
  assumes "walked H directory tree m = Inr s"
  shows "''.'' \<in> set (v_allPaths s)"
proof -
  let ?s0 = "\<lparr>v_m = m, v_tw = NewWriter, v_count = 0, v_allPaths = []\<rparr>"
  let ?fn = "walkFn H directory"
  have w: "walk ?fn directory (sort_entries tree) ?s0 = Inr s"
    using assms by (simp add: walked_def Walk_def)
  have first: "?fn directory n err ?s0 = Inr s1 \<Longrightarrow> ''.'' \<in> set (v_allPaths s1)" for n err s1
    using walkFn_allPaths [of H directory directory n err ?s0 s1 "''.''"]
    by (simp add: relativePath_of_root)
  show ?thesis
  proof (cases "sort_entries tree")
    case (Directory p kids)
    with w obtain s1 where a: "?fn directory (Directory p kids) None ?s0 = Inr s1"
      and b: "walk_names ?fn directory kids s1 = Inr s"
      by (auto simp: seq_eq_Inr)
    show ?thesis
      using walk_names_allPaths_mono [OF b first [OF a]] .
  next
    case (File p c)
    with w first show ?thesis by simp
  next
    case (Unreadable p)
    with w first show ?thesis by simp
  next
    case (Symlink t)
    with w first show ?thesis by simp
  qed
qed

text \<open>The manifest \<open>writeNewFiles\<close> leaves, for a baseline with normalized keys.\<close>

lemma final_manifest:
  assumes "range_ok rng" and "normalized m"
    and "walked H directory tree m = Inr s"
    and "writeNewFiles rng H directory tree m = Inr (layer, delta, m')"
  shows "keys m' = normalize_path ` set (v_allPaths s)"
    and "k \<in> keys m' \<Longrightarrow> lookup m' k = lookup (v_m s) k"
    and "normalized m'"
proof -
  let ?ms = "Missing rng (v_m s) (v_allPaths s)"
  let ?N = "normalize_path ` set (v_allPaths s)"
  have m': "m' = removed (v_m s) ?ms"
    using writeNewFiles_walked [OF assms(3), of rng] assms(4) by simp
  have k: "keys (v_m s) = keys m \<union> ?N"
    using walked_walk_inv [OF assms(3)] by (simp add: walk_inv_def)
  have n: "normalized (v_m s)"
    using assms(2,3) by (rule normalized_walked)
  have ms: "set ?ms = keys (v_m s) - ?N"
    using set_Missing [OF assms(1)] by auto
  then have img: "normalize_path ` set ?ms = set ?ms"
    using n by (force simp: normalized_def)
  show 1: "keys m' = ?N"
    using m' k ms img by (auto simp: keys_removed)
  show "lookup m' k = lookup (v_m s) k" if "k \<in> keys m'"
    using that m' img by (auto simp: lookup_removed keys_lookup split: if_splits)
  show "normalized m'"
    using m' n by (simp add: normalized_removed)
qed

section \<open>The root of the walk\<close>

text \<open>
  C4, as the code has it.  For a clean directory path other than \<open>.\<close> and \<open>/\<close> and a tree
  whose entries have proper names, the walk records the root itself, under the relative
  path \<open>.\<close>, and after it every file and directory under the root, each under its
  path relative to the root, in the order of the walk.  The root is a key of the manifest
  after the walk, and when the baseline does not have it, the first entry of the archive
  is written for it, under the name of the mount path.
\<close>

theorem walk_entries:
  assumes "normalize_path directory = directory"
    and "directory \<noteq> ''.''" and "directory \<noteq> ''/''"
    and "names_ok tree"
    and "walked H directory tree m = Inr s"
  shows "v_allPaths s = ''.'' # map join_sep (below (sort_entries tree))
     \<and> Has (v_m s) ''.''
     \<and> (\<not> Has m ''.'' \<longrightarrow>
          (\<exists>e rest. entries (v_tw s) = e # rest \<and> Name (fst e) = BasePath))"
proof -
  have 1: "v_allPaths s = ''.'' # map join_sep (below (sort_entries tree))"
    using assms by (rule walked_allPaths)
  have inv: "walk_inv m s"
    using assms(5) by (rule walked_walk_inv)
  have dot: "normalize_path ''.'' = ''.''"
    unfolding normalize_path_def by code_simp
  have 2: "Has (v_m s) ''.''"
    using inv 1 dot by (force simp: walk_inv_def Has_keys)
  have 3: "\<exists>e rest. entries (v_tw s) = e # rest \<and> Name (fst e) = BasePath" if "\<not> Has m ''.''"
  proof -
    have j: "Join [BasePath, ''.''] = BasePath"
      unfolding BasePath_def by code_simp
    have "''.'' \<notin> keys m"
      using that dot by (simp add: Has_keys)
    then obtain qs where "included (keys m) (v_allPaths s) = ''.'' # qs"
      using 1 dot by simp
    then have "map (\<lambda>e. Name (fst e)) (entries (v_tw s)) =
                 BasePath # map (\<lambda>q. Join [BasePath, q]) qs"
      using inv j by (simp add: walk_inv_def)
    then show ?thesis
      by (cases "entries (v_tw s)") auto
  qed
  from 1 2 3 show ?thesis by blast
qed

lemma walked_tree_ex:
  "walked hash_ex ''dir'' tree_ex M_empty =
     Inr \<lparr>v_m = \<lparr>Files = Some [(''.'', []), (''a'', []), (''a/b'', ''sha256:B''),
                              (''foo'', []), (''foo/bar'', ''sha256:BAR'')]\<rparr>,
          v_tw = \<lparr>entries =
            [(\<lparr>Name = ''/var/run/kontext'', Size = 0, Typeflag = TypeDir, Mode = 365\<rparr>, []),
             (\<lparr>Name = ''/var/run/kontext/a'', Size = 0, Typeflag = TypeDir, Mode = 365\<rparr>, []),
             (\<lparr>Name = ''/var/run/kontext/a/b'', Size = 1, Typeflag = TypeReg, Mode = 365\<rparr>,
              ''B''),
             (\<lparr>Name = ''/var/run/kontext/foo'', Size = 0, Typeflag = TypeDir, Mode = 365\<rparr>, []),
             (\<lparr>Name = ''/var/run/kontext/foo/bar'', Size = 3, Typeflag = TypeReg,
               Mode = 365\<rparr>, ''BAR'')],
            remaining = 0\<rparr>,
          v_count = 5,
          v_allPaths = [''.'', ''a'', ''a/b'', ''foo'', ''foo/bar'']\<rparr>"
  unfolding tree_ex_def M_empty_def by code_simp

theorem walk_entries_witness:
  "normalize_path ''dir'' = ''dir'' \<and> names_ok tree_ex
   \<and> [''.'', ''a'', ''a/b'', ''foo'', ''foo/bar''] =
       ''.'' # map join_sep (below (sort_entries tree_ex))
   \<and> \<not> Has M_empty ''.''
   \<and> Has \<lparr>Files = Some [(''.'', []), (''a'', []), (''a/b'', ''sha256:B''),
                         (''foo'', []), (''foo/bar'', ''sha256:BAR'')]\<rparr> ''.''"
proof -
  have d: "normalize_path ''dir'' = ''dir''"
    unfolding normalize_path_def by code_simp
  have n: "names_ok tree_ex"
    unfolding tree_ex_def by code_simp
  have h: "\<not> Has M_empty ''.''"
    by (simp add: M_empty_def Has_def)
  show ?thesis
    using walk_entries [OF d _ _ n walked_tree_ex] d n h by simp
qed

theorem walk_entries_counterexample:
  "walked hash_ex ''dir'' (Directory 493 []) M_empty =
     Inr \<lparr>v_m = \<lparr>Files = Some [(''.'', [])]\<rparr>,
          v_tw = \<lparr>entries =
            [(\<lparr>Name = ''/var/run/kontext'', Size = 0, Typeflag = TypeDir, Mode = 365\<rparr>, [])],
            remaining = 0\<rparr>,
          v_count = 1,
          v_allPaths = [''.'']\<rparr>"
  unfolding M_empty_def by code_simp

section \<open>Which markers the loop writes\<close>

lemma removed_append: "removed m (xs @ ys) = removed (removed m xs) ys"
  by (induction m xs rule: removed.induct) auto

lemma Has_removed:
  "Has (removed m xs) p \<longleftrightarrow>
     normalize_path p \<in> keys m \<and> normalize_path p \<notin> normalize_path ` set xs"
  by (auto simp: Has_keys keys_removed)

lemma marked_subset: "set (marked m xs) \<subseteq> set xs"
  by (induction m xs rule: marked.induct) auto

lemma marked_split:
  "x \<in> set (marked m xs) \<Longrightarrow>
     \<exists>ys zs. xs = ys @ x # zs \<and> Has (removed m (ys @ [x])) (Dir x)"
proof (induction m xs rule: marked.induct)
  case (1 m)
  then show ?case by simp
next
  case (2 m a xs)
  show ?case
  proof (cases "x = a \<and> Has (Remove m a) (Dir a)")
    case True
    then have "a # xs = [] @ x # xs \<and> Has (removed m ([] @ [x])) (Dir x)"
      by simp
    then show ?thesis by blast
  next
    case False
    then have "x \<in> set (marked (Remove m a) xs)"
      using "2.prems" by (auto split: if_splits)
    then obtain ys zs where "xs = ys @ x # zs"
      and "Has (removed (Remove m a) (ys @ [x])) (Dir x)"
      using "2.IH" by blast
    then have "a # xs = (a # ys) @ x # zs \<and> Has (removed m ((a # ys) @ [x])) (Dir x)"
      by simp
    then show ?thesis by blast
  qed
qed

lemma marked_not:
  "distinct xs \<Longrightarrow> xs = ys @ x # zs \<Longrightarrow> \<not> Has (removed m (ys @ [x])) (Dir x) \<Longrightarrow>
     x \<notin> set (marked m xs)"
proof (induction m xs arbitrary: ys rule: marked.induct)
  case (1 m)
  then show ?case by simp
next
  case (2 m a xs)
  show ?case
  proof (cases ys)
    case Nil
    then have "a = x" and "xs = zs" and "\<not> Has (Remove m a) (Dir a)"
      using "2.prems" by auto
    moreover have "x \<notin> set xs"
      using "2.prems"(1) \<open>a = x\<close> by simp
    ultimately show ?thesis
      using marked_subset [of "Remove m a" xs] by auto
  next
    case (Cons b ys')
    then have xs: "xs = ys' @ x # zs" and b: "b = a"
      using "2.prems"(2) by auto
    have ne: "x \<noteq> a"
      using "2.prems"(1) xs by auto
    have "\<not> Has (removed (Remove m a) (ys' @ [x])) (Dir x)"
      using "2.prems"(3) Cons b by simp
    then have "x \<notin> set (marked (Remove m a) xs)"
      using "2.IH" [OF _ xs] "2.prems"(1) by simp
    then show ?thesis
      using ne by simp
  qed
qed

lemma sorted_distinct_after:
  fixes x :: string
  assumes "sorted (ys @ x # zs)" and "distinct (ys @ x # zs)" and "z \<in> set zs"
  shows "x < z"
proof -
  have "x \<le> z"
    using assms(1,3) by (auto simp: sorted_append)
  moreover have "x \<noteq> z"
    using assms(2,3) by auto
  ultimately show ?thesis by simp
qed

lemma sorted_distinct_before:
  fixes x :: string
  assumes "sorted (ys @ x # zs)" and "d \<in> set (ys @ x # zs)" and "distinct (ys @ x # zs)"
    and "d \<le> x"
  shows "d \<in> set (ys @ [x])"
proof (rule ccontr)
  assume "d \<notin> set (ys @ [x])"
  then have "d \<in> set zs"
    using assms(2) by auto
  then have "x < d"
    using sorted_distinct_after [OF assms(1,3)] by blast
  then show False
    using assms(4) by simp
qed

lemma Dir_pow_le:
  assumes "Clean p = p"
  shows "(Dir ^^ k) p = ''.'' \<or> (Dir ^^ k) p \<le> p"
proof (induction k)
  case 0
  show ?case by simp
next
  case (Suc k)
  have dot: "Dir ''.'' = ''.''" by code_simp
  have cl: "Clean ((Dir ^^ k) p) = (Dir ^^ k) p"
    using assms Dir_clean by (cases k) simp_all
  show ?case
    using Suc Dir_le [OF cl] dot by auto
qed

text \<open>
  The facts about one run that both statements on the markers rest on: the missing paths
  are sorted, distinct, normalized keys, none of them \<open>.\<close>.
\<close>

lemma missing_facts:
  assumes "range_ok rng" and "wf_Manifest m" and "normalized m"
    and "walked H directory tree m = Inr s"
  shows "sorted (Missing rng (v_m s) (v_allPaths s))"
    and "distinct (Missing rng (v_m s) (v_allPaths s))"
    and "\<And>k. k \<in> set (Missing rng (v_m s) (v_allPaths s)) \<Longrightarrow>
            normalize_path k = k \<and> k \<in> keys (v_m s) \<and> k \<noteq> ''.''"
proof -
  let ?ms = "Missing rng (v_m s) (v_allPaths s)"
  have inv: "walk_inv m s"
    using assms(4) by (rule walked_walk_inv)
  have wf: "wf_Manifest (v_m s)"
    using inv assms(2) by (simp add: walk_inv_def)
  have n: "normalized (v_m s)"
    using assms(3,4) by (rule normalized_walked)
  show "sorted ?ms" by (rule sorted_Missing)
  show "distinct ?ms" using assms(1) wf by (rule distinct_Missing)
  fix k
  assume k: "k \<in> set ?ms"
  then have 1: "k \<in> keys (v_m s)" and 2: "k \<notin> normalize_path ` set (v_allPaths s)"
    using set_Missing [OF assms(1), of "v_m s" "v_allPaths s"] by auto
  have dot: "normalize_path ''.'' = ''.''"
    unfolding normalize_path_def by code_simp
  have "k \<noteq> ''.''"
    using 2 walked_root [OF assms(4)] dot by force
  then show "normalize_path k = k \<and> k \<in> keys (v_m s) \<and> k \<noteq> ''.''"
    using 1 n by (simp add: normalized_def)
qed

section \<open>Whiteout markers\<close>

text \<open>
  C2, as the code has it.  Let the keys of the baseline manifest be normalized.  The
  layer holds the entries of
  the walk followed by one marker for each missing path for which the loop writes one.
  Such a path is missing, and its directory is a key of the manifest that
  \<open>writeNewFiles\<close> leaves, all additions and removals of the round applied.  For a
  missing path whose directory is missing as well, the loop writes no marker.
\<close>

theorem whiteout_containment:
  assumes "range_ok rng" and "wf_Manifest m" and "normalized m"
    and "walked H directory tree m = Inr s"
    and "writeNewFiles rng H directory tree m = Inr (layer, delta, m')"
  shows "entries layer = entries (v_tw s)
           @ map whiteout_entry (marked (v_m s) (Missing rng (v_m s) (v_allPaths s)))
     \<and> (\<forall>p \<in> set (marked (v_m s) (Missing rng (v_m s) (v_allPaths s))).
           p \<in> set (Missing rng (v_m s) (v_allPaths s)) \<and> Has m' (Dir p))
     \<and> (\<forall>p \<in> set (Missing rng (v_m s) (v_allPaths s)).
           Dir p \<in> set (Missing rng (v_m s) (v_allPaths s)) \<longrightarrow>
           p \<notin> set (marked (v_m s) (Missing rng (v_m s) (v_allPaths s))))"
proof -
  let ?ms = "Missing rng (v_m s) (v_allPaths s)"
  note mf = missing_facts [OF assms(1-4)]
  have res: "layer = \<lparr>entries = entries (v_tw s) @ map whiteout_entry (marked (v_m s) ?ms),
                      remaining = 0\<rparr>"
    and m': "m' = removed (v_m s) ?ms"
    using writeNewFiles_walked [OF assms(4), of rng] assms(5) by simp_all
  have 1: "entries layer = entries (v_tw s) @ map whiteout_entry (marked (v_m s) ?ms)"
    using res by simp
  have 2: "p \<in> set ?ms \<and> Has m' (Dir p)" if p: "p \<in> set (marked (v_m s) ?ms)" for p
  proof -
    have pm: "p \<in> set ?ms"
      using p marked_subset by blast
    from marked_split [OF p] obtain ys zs where
      sp: "?ms = ys @ p # zs" and h: "Has (removed (v_m s) (ys @ [p])) (Dir p)"
      by blast
    have dn: "normalize_path (Dir p) = Dir p"
      by (simp add: normalize_path_def Dir_clean)
    have in_k: "Dir p \<in> keys (v_m s)" and not_before: "Dir p \<notin> normalize_path ` set (ys @ [p])"
      using h dn by (simp_all add: Has_removed)
    have not_after: "Dir p \<notin> normalize_path ` set zs"
    proof
      assume "Dir p \<in> normalize_path ` set zs"
      then obtain z where z: "z \<in> set zs" and dz: "Dir p = normalize_path z"
        by blast
      have zm: "z \<in> set ?ms"
        using z sp by simp
      then have dz': "Dir p = z" and znd: "z \<noteq> ''.''"
        using mf(3) [OF zm] dz by simp_all
      have "p < z"
        using sorted_distinct_after [of ys p zs z] mf(1,2) sp z by simp
      moreover have "Clean p = p"
        using mf(3) [OF pm] by (simp add: normalize_path_def)
      then have "Dir p = ''.'' \<or> Dir p \<le> p"
        by (rule Dir_le)
      ultimately show False
        using dz' znd by auto
    qed
    have "Dir p \<notin> normalize_path ` set ?ms"
      using not_before not_after sp by auto
    then have "Has m' (Dir p)"
      using in_k dn m' by (simp add: Has_removed)
    then show ?thesis
      using pm by simp
  qed
  have 3: "p \<notin> set (marked (v_m s) ?ms)" if pm: "p \<in> set ?ms" and dm: "Dir p \<in> set ?ms" for p
  proof -
    from pm obtain ys zs where sp: "?ms = ys @ p # zs"
      by (auto simp: in_set_conv_decomp)
    have "Clean p = p"
      using mf(3) [OF pm] by (simp add: normalize_path_def)
    then have "Dir p = ''.'' \<or> Dir p \<le> p"
      by (rule Dir_le)
    then have "Dir p \<le> p"
      using mf(3) [OF dm] by auto
    then have "Dir p \<in> set (ys @ [p])"
      using sorted_distinct_before [of ys p zs "Dir p"] mf(1,2) sp dm by simp
    then have "\<not> Has (removed (v_m s) (ys @ [p])) (Dir p)"
      by (simp add: Has_removed del: set_append)
    then show ?thesis
      using marked_not [OF mf(2) sp] by blast
  qed
  from 1 2 3 show ?thesis by blast
qed

lemma walked_keep: "walked hash_ex ''dir'' tree_keep M_base = Inr s_keep"
  unfolding tree_keep_def M_base_def s_keep_def by code_simp

lemma Missing_keep: "Missing rev (v_m s_keep) (v_allPaths s_keep) = [''gone'', ''gone/x'', ''top'']"
  unfolding s_keep_def M_base_def by code_simp

lemma marked_keep: "marked (v_m s_keep) [''gone'', ''gone/x'', ''top''] = [''gone'', ''top'']"
  unfolding s_keep_def M_base_def by code_simp

lemma writeNewFiles_keep:
  "writeNewFiles rev hash_ex ''dir'' tree_keep M_base =
     Inr (\<lparr>entries = [whiteout_entry ''gone'', whiteout_entry ''top''], remaining = 0\<rparr>,
          3,
          \<lparr>Files = Some [(''.'', []), (''keep'', [])]\<rparr>)"
  unfolding tree_keep_def M_base_def by code_simp

lemma M_base_ok: "wf_Manifest M_base" "normalized M_base"
  unfolding wf_Manifest_def normalized_def M_base_def keys_def normalize_path_def
  by code_simp+

theorem whiteout_containment_witness:
  "range_ok rev \<and> wf_Manifest M_base \<and> normalized M_base
   \<and> writeNewFiles rev hash_ex ''dir'' tree_keep M_base =
       Inr (\<lparr>entries = [whiteout_entry ''gone'', whiteout_entry ''top''], remaining = 0\<rparr>,
            3,
            \<lparr>Files = Some [(''.'', []), (''keep'', [])]\<rparr>)
   \<and> Missing rev (v_m s_keep) (v_allPaths s_keep) = [''gone'', ''gone/x'', ''top'']
   \<and> marked (v_m s_keep) [''gone'', ''gone/x'', ''top''] = [''gone'', ''top'']
   \<and> Has \<lparr>Files = Some [(''.'', []), (''keep'', [])]\<rparr> (Dir ''gone'')
   \<and> Has \<lparr>Files = Some [(''.'', []), (''keep'', [])]\<rparr> (Dir ''top'')
   \<and> Dir ''gone/x'' = ''gone''
   \<and> ''gone/x'' \<notin> set (marked (v_m s_keep) [''gone'', ''gone/x'', ''top''])"
proof -
  let ?m' = "\<lparr>Files = Some [(''.'', []), (''keep'', [])]\<rparr>"
  let ?ms = "Missing rev (v_m s_keep) (v_allPaths s_keep)"
  note t = whiteout_containment [OF range_ok_rev M_base_ok walked_keep writeNewFiles_keep]
  have d: "Dir ''gone/x'' = ''gone''"
    by code_simp
  have "\<forall>p \<in> set (marked (v_m s_keep) ?ms). Has ?m' (Dir p)"
    using t by blast
  then have "\<forall>p \<in> set [''gone'', ''top'']. Has ?m' (Dir p)"
    unfolding Missing_keep marked_keep .
  then have 1: "Has ?m' (Dir ''gone'') \<and> Has ?m' (Dir ''top'')"
    by simp
  have "\<forall>p \<in> set ?ms. Dir p \<in> set ?ms \<longrightarrow> p \<notin> set (marked (v_m s_keep) ?ms)"
    using t by blast
  then have "\<forall>p \<in> set [''gone'', ''gone/x'', ''top''].
      Dir p \<in> set [''gone'', ''gone/x'', ''top''] \<longrightarrow>
      p \<notin> set (marked (v_m s_keep) [''gone'', ''gone/x'', ''top''])"
    unfolding Missing_keep .
  then have 2: "''gone/x'' \<notin> set (marked (v_m s_keep) [''gone'', ''gone/x'', ''top''])"
    using d by (simp del: marked.simps)
  show ?thesis
    using range_ok_rev M_base_ok writeNewFiles_keep Missing_keep marked_keep d 1 2
    by (simp del: marked.simps)
qed

section \<open>Paths the baseline has\<close>

text \<open>
  C5, as the code has it.  Let \<open>p\<close> be a walked path that the baseline manifest has.
  Then \<open>p\<close> is not among the paths the walk includes: the entries the walk writes are
  those of the included paths, and the count is their number plus the number of missing
  paths, so nothing is written and nothing is counted for \<open>p\<close>.  Nor is the key of \<open>p\<close>
  missing.  When the keys of the baseline are normalized, the manifest \<open>writeNewFiles\<close>
  leaves has \<open>p\<close> with the digest of the baseline, whatever the content of the file is
  now.
\<close>

theorem baseline_path_skipped:
  assumes "range_ok rng"
    and "walked H directory tree m = Inr s"
    and "writeNewFiles rng H directory tree m = Inr (layer, delta, m')"
    and "p \<in> set (v_allPaths s)" and "Has m p"
  shows "p \<notin> set (included (keys m) (v_allPaths s))
     \<and> map (\<lambda>e. Name (fst e)) (entries (v_tw s)) =
         map (\<lambda>q. Join [BasePath, q]) (included (keys m) (v_allPaths s))
     \<and> delta = int (length (included (keys m) (v_allPaths s)))
               + int (length (Missing rng (v_m s) (v_allPaths s)))
     \<and> normalize_path p \<notin> set (Missing rng (v_m s) (v_allPaths s))
     \<and> (normalized m \<longrightarrow>
          Has m' p \<and> lookup m' (normalize_path p) = lookup m (normalize_path p))"
proof -
  let ?inc = "included (keys m) (v_allPaths s)"
  let ?ms = "Missing rng (v_m s) (v_allPaths s)"
  have inv: "walk_inv m s"
    using assms(2) by (rule walked_walk_inv)
  have pk: "normalize_path p \<in> keys m"
    using assms(5) by (simp add: Has_keys)
  have 1: "p \<notin> set ?inc"
    using included_not_key [of p "keys m" "v_allPaths s"] pk by blast
  have 2: "map (\<lambda>e. Name (fst e)) (entries (v_tw s)) = map (\<lambda>q. Join [BasePath, q]) ?inc"
    using inv by (simp add: walk_inv_def)
  have "length (entries (v_tw s)) = length ?inc"
    using 2 by (metis length_map)
  moreover have "v_count s = int (length (entries (v_tw s)))"
    using walked_tw_inv [OF assms(2)] by (simp add: tw_inv_def)
  moreover have "delta = v_count s + int (length ?ms)"
    using writeNewFiles_walked [OF assms(2), of rng] assms(3) by simp
  ultimately have 3: "delta = int (length ?inc) + int (length ?ms)"
    by simp
  have 4: "normalize_path p \<notin> set ?ms"
    using set_Missing [OF assms(1), of "v_m s" "v_allPaths s"] assms(4) by auto
  have 5: "Has m' p \<and> lookup m' (normalize_path p) = lookup m (normalize_path p)"
    if n: "normalized m"
  proof -
    have km': "keys m' = normalize_path ` set (v_allPaths s)"
      using assms(1) n assms(2,3) by (rule final_manifest(1))
    then have in': "normalize_path p \<in> keys m'"
      using assms(4) by simp
    have "lookup m' (normalize_path p) = lookup (v_m s) (normalize_path p)"
      using final_manifest(2) [OF assms(1) n assms(2,3) in'] .
    also have "\<dots> = lookup m (normalize_path p)"
      using inv pk by (simp add: walk_inv_def)
    finally show ?thesis
      using in' by (simp add: Has_keys)
  qed
  from 1 2 3 4 5 show ?thesis by blast
qed

lemma walked_f:
  "walked hash_ex ''dir'' tree_f M_f =
     Inr \<lparr>v_m = M_f, v_tw = NewWriter, v_count = 0, v_allPaths = [''.'', ''f'']\<rparr>"
  unfolding tree_f_def M_f_def by code_simp

lemma writeNewFiles_f:
  "writeNewFiles id hash_ex ''dir'' tree_f M_f = Inr (NewWriter, 0, M_f)"
  unfolding tree_f_def M_f_def by code_simp

theorem baseline_path_skipped_witness:
  "range_ok id \<and> normalized M_f \<and> Has M_f ''f''
   \<and> writeNewFiles id hash_ex ''dir'' tree_f M_f = Inr (NewWriter, 0, M_f)
   \<and> read_file (File 420 (Some ''new'')) = Inr ''new''
   \<and> hash_ex ''new'' = ''sha256:new''
   \<and> lookup M_f (normalize_path ''f'') = Some ''sha256:old''
   \<and> ''f'' \<notin> set (included (keys M_f) [''.'', ''f''])"
proof -
  have n: "normalized M_f"
    unfolding normalized_def M_f_def keys_def normalize_path_def by code_simp
  have h: "Has M_f ''f''"
    unfolding M_f_def by code_simp
  have l: "lookup M_f (normalize_path ''f'') = Some ''sha256:old''"
    unfolding M_f_def by code_simp
  have r: "read_file (File 420 (Some ''new'')) = Inr ''new''"
    by (simp add: read_file_def)
  show ?thesis
    using baseline_path_skipped [OF range_ok_id walked_f writeNewFiles_f _ h]
      range_ok_id n h l r writeNewFiles_f
    by (simp add: hash_ex_def)
qed

text \<open>
  A baseline with the keys \<open>f\<close> and \<open>./f\<close>, read against a directory that holds the file
  \<open>f\<close>: the key \<open>./f\<close> is missing, its removal deletes the key \<open>f\<close>, and the manifest
  left no longer has the walked path \<open>f\<close>.
\<close>

theorem baseline_path_skipped_counterexample:
  "Has M_alias ''f''
   \<and> writeNewFiles id hash_ex ''dir'' tree_f M_alias =
       Inr (\<lparr>entries = [(\<lparr>Name = ''/var/run/kontext/.wh.f'', Size = 0, Typeflag = TypeReg,
                           Mode = 0\<rparr>, [])],
             remaining = 0\<rparr>,
            1,
            \<lparr>Files = Some [(''.'', []), (''./f'', ''sha256:old'')]\<rparr>)
   \<and> lookup M_alias (normalize_path ''f'') = Some ''sha256:old''
   \<and> lookup \<lparr>Files = Some [(''.'', []), (''./f'', ''sha256:old'')]\<rparr> (normalize_path ''f'') = None"
proof -
  have 1: "Has M_alias ''f''"
    unfolding M_alias_def by code_simp
  have 2: "writeNewFiles id hash_ex ''dir'' tree_f M_alias =
       Inr (\<lparr>entries = [(\<lparr>Name = ''/var/run/kontext/.wh.f'', Size = 0, Typeflag = TypeReg,
                           Mode = 0\<rparr>, [])],
             remaining = 0\<rparr>,
            1,
            \<lparr>Files = Some [(''.'', []), (''./f'', ''sha256:old'')]\<rparr>)"
    unfolding M_alias_def tree_f_def by code_simp
  have 3: "lookup M_alias (normalize_path ''f'') = Some ''sha256:old''"
    unfolding M_alias_def by code_simp
  have 4: "lookup \<lparr>Files = Some [(''.'', []), (''./f'', ''sha256:old'')]\<rparr> (normalize_path ''f'') = None"
    by code_simp
  from 1 2 3 4 show ?thesis by (intro conjI)
qed

text \<open>
  A baseline with the keys \<open>b\<close> and \<open>!/../b/x\<close>, read against an empty directory: both
  keys are missing, the second sorts first, its removal deletes nothing, and its marker
  is written under \<open>b\<close>, which is removed next and is no key of the manifest left.
\<close>

theorem whiteout_containment_counterexample:
  "Missing id \<lparr>Files = Some [(''b'', []), (''!/../b/x'', ''h''), (''.'', [])]\<rparr> [''.''] =
     [''!/../b/x'', ''b'']
   \<and> writeNewFiles id hash_ex ''dir'' (Directory 493 []) M_odd =
       Inr (\<lparr>entries =
              [(\<lparr>Name = ''/var/run/kontext'', Size = 0, Typeflag = TypeDir, Mode = 365\<rparr>, []),
               (\<lparr>Name = ''/var/run/kontext/b/.wh.x'', Size = 0, Typeflag = TypeReg,
                 Mode = 0\<rparr>, []),
               (\<lparr>Name = ''/var/run/kontext/.wh.b'', Size = 0, Typeflag = TypeReg,
                 Mode = 0\<rparr>, [])],
             remaining = 0\<rparr>,
            3,
            \<lparr>Files = Some [(''!/../b/x'', ''h''), (''.'', [])]\<rparr>)
   \<and> whiteout_path ''!/../b/x'' = ''/var/run/kontext/b/.wh.x''
   \<and> Dir ''!/../b/x'' = ''b''
   \<and> \<not> Has \<lparr>Files = Some [(''!/../b/x'', ''h''), (''.'', [])]\<rparr> (Dir ''!/../b/x'')"
proof -
  have 1: "Missing id \<lparr>Files = Some [(''b'', []), (''!/../b/x'', ''h''), (''.'', [])]\<rparr> [''.''] =
     [''!/../b/x'', ''b'']"
    by code_simp
  have 2: "writeNewFiles id hash_ex ''dir'' (Directory 493 []) M_odd =
       Inr (\<lparr>entries =
              [(\<lparr>Name = ''/var/run/kontext'', Size = 0, Typeflag = TypeDir, Mode = 365\<rparr>, []),
               (\<lparr>Name = ''/var/run/kontext/b/.wh.x'', Size = 0, Typeflag = TypeReg,
                 Mode = 0\<rparr>, []),
               (\<lparr>Name = ''/var/run/kontext/.wh.b'', Size = 0, Typeflag = TypeReg,
                 Mode = 0\<rparr>, [])],
             remaining = 0\<rparr>,
            3,
            \<lparr>Files = Some [(''!/../b/x'', ''h''), (''.'', [])]\<rparr>)"
    unfolding M_odd_def by code_simp
  have 3: "whiteout_path ''!/../b/x'' = ''/var/run/kontext/b/.wh.x''"
    by code_simp
  have 4: "Dir ''!/../b/x'' = ''b''"
    by code_simp
  have 5: "\<not> Has \<lparr>Files = Some [(''!/../b/x'', ''h''), (''.'', [])]\<rparr> (Dir ''!/../b/x'')"
    by code_simp
  from 1 2 3 4 5 show ?thesis by (intro conjI)
qed

section \<open>The order of the removals\<close>

lemma seq_assoc: "seq (seq r f) g = seq r (\<lambda>x. seq (f x) g)"
  by (cases r) simp_all

lemma whiteouts_append: "whiteouts (xs @ ys) s = seq (whiteouts xs s) (whiteouts ys)"
proof (induction xs arbitrary: s)
  case Nil
  show ?case by simp
next
  case (Cons x xs)
  show ?case
    by (simp add: Let_def Cons.IH seq_assoc)
qed

text \<open>
  C9, as the code has it.  Let the keys of the baseline manifest be normalized, and let
  the list of missing paths be \<open>ys\<close>, then \<open>p\<close>, then \<open>zs\<close>.  The loop over \<open>ys\<close> ends in a
  state \<open>s1\<close>, in which it comes to \<open>p\<close>, and \<open>writeNewFiles\<close> returns what the loop
  leaves from there.  Every missing directory above \<open>p\<close> (its directory, the directory of
  that, and so on) other than \<open>p\<close> itself is smaller than \<open>p\<close>, is among \<open>ys\<close>, was a key
  of the manifest after the walk and is no key of the manifest in \<open>s1\<close>: the loop has
  removed it.  When the directory of \<open>p\<close> is missing, the step for \<open>p\<close> counts \<open>p\<close>,
  removes it and goes on without writing a header.
\<close>

theorem missing_parent_first:
  assumes "range_ok rng" and "wf_Manifest m" and "normalized m"
    and "walked H directory tree m = Inr s"
    and "Missing rng (v_m s) (v_allPaths s) = ys @ p # zs"
  shows "\<exists>s1. whiteouts ys s = Inr s1
     \<and> writeNewFiles rng H directory tree m =
         seq (whiteouts (p # zs) s1) (\<lambda>s'. Inr (v_tw s', v_count s', v_m s'))
     \<and> (\<forall>k. (Dir ^^ k) p \<in> set (Missing rng (v_m s) (v_allPaths s)) \<longrightarrow>
            (Dir ^^ k) p \<noteq> p \<longrightarrow>
            (Dir ^^ k) p < p \<and> (Dir ^^ k) p \<in> set ys
            \<and> Has (v_m s) ((Dir ^^ k) p) \<and> \<not> Has (v_m s1) ((Dir ^^ k) p))
     \<and> (Dir p \<in> set (Missing rng (v_m s) (v_allPaths s)) \<longrightarrow>
            \<not> Has (Remove (v_m s1) p) (Dir p)
            \<and> whiteouts (p # zs) s1 =
                whiteouts zs (s1\<lparr>v_count := v_count s1 + 1, v_m := Remove (v_m s1) p\<rparr>))"
proof -
  let ?ms = "Missing rng (v_m s) (v_allPaths s)"
  note mf = missing_facts [OF assms(1-4)]
  have r0: "remaining (v_tw s) = 0"
    using walked_tw_inv [OF assms(4)] by (simp add: tw_inv_def)
  define s1 where "s1 = s\<lparr>v_count := v_count s + int (length ys),
            v_m := removed (v_m s) ys,
            v_tw := \<lparr>entries = entries (v_tw s) @ map whiteout_entry (marked (v_m s) ys),
                     remaining = 0\<rparr>\<rparr>"
  have w1: "whiteouts ys s = Inr s1"
    using whiteouts_Inr [OF r0, of ys] by (simp add: s1_def)
  have m1: "v_m s1 = removed (v_m s) ys"
    by (simp add: s1_def)
  have "whiteouts ?ms s = whiteouts (p # zs) s1"
    using whiteouts_append [of ys "p # zs" s] w1 assms(5) by simp
  then have wn: "writeNewFiles rng H directory tree m =
         seq (whiteouts (p # zs) s1) (\<lambda>s'. Inr (v_tw s', v_count s', v_m s'))"
    using assms(4) by (simp add: writeNewFiles_def)
  have pm: "p \<in> set ?ms"
    using assms(5) by simp
  have cl: "Clean p = p"
    using mf(3) [OF pm] by (simp add: normalize_path_def)
  have up: "(Dir ^^ k) p < p \<and> (Dir ^^ k) p \<in> set ys
            \<and> Has (v_m s) ((Dir ^^ k) p) \<and> \<not> Has (v_m s1) ((Dir ^^ k) p)"
    if d: "(Dir ^^ k) p \<in> set ?ms" and ne: "(Dir ^^ k) p \<noteq> p" for k
  proof -
    have "(Dir ^^ k) p = ''.'' \<or> (Dir ^^ k) p \<le> p"
      using cl by (rule Dir_pow_le)
    then have le: "(Dir ^^ k) p \<le> p"
      using mf(3) [OF d] by auto
    have "(Dir ^^ k) p \<in> set (ys @ [p])"
      using sorted_distinct_before [of ys p zs "(Dir ^^ k) p"] mf(1,2) assms(5) d le by simp
    then have iy: "(Dir ^^ k) p \<in> set ys"
      using ne by simp
    have "Has (v_m s) ((Dir ^^ k) p)"
      using mf(3) [OF d] by (simp add: Has_keys)
    moreover have "\<not> Has (v_m s1) ((Dir ^^ k) p)"
      using iy m1 by (simp add: Has_removed)
    ultimately show ?thesis
      using le ne iy by simp
  qed
  have par: "\<not> Has (Remove (v_m s1) p) (Dir p)
            \<and> whiteouts (p # zs) s1 =
                whiteouts zs (s1\<lparr>v_count := v_count s1 + 1, v_m := Remove (v_m s1) p\<rparr>)"
    if d: "Dir p \<in> set ?ms"
  proof -
    have "Dir p = ''.'' \<or> Dir p \<le> p"
      using cl by (rule Dir_le)
    then have le: "Dir p \<le> p"
      using mf(3) [OF d] by auto
    have "Dir p \<in> set (ys @ [p])"
      using sorted_distinct_before [of ys p zs "Dir p"] mf(1,2) assms(5) d le by simp
    then have "\<not> Has (removed (v_m s) (ys @ [p])) (Dir p)"
      by (simp add: Has_removed del: set_append)
    then have nh: "\<not> Has (Remove (v_m s1) p) (Dir p)"
      using m1 by (simp add: removed_append)
    then show ?thesis
      by (simp add: Let_def)
  qed
  from w1 wn up par show ?thesis by blast
qed

lemma Missing_keep_split:
  "Missing rev (v_m s_keep) (v_allPaths s_keep) = [''gone''] @ ''gone/x'' # [''top'']"
  using Missing_keep by simp

theorem missing_parent_first_witness:
  "range_ok rev \<and> wf_Manifest M_base \<and> normalized M_base
   \<and> walked hash_ex ''dir'' tree_keep M_base = Inr s_keep
   \<and> Missing rev (v_m s_keep) (v_allPaths s_keep) = [''gone''] @ ''gone/x'' # [''top'']
   \<and> (Dir ^^ 1) ''gone/x'' = ''gone''
   \<and> ''gone'' < ''gone/x''
   \<and> Has (v_m s_keep) ''gone''
   \<and> (\<exists>s1. whiteouts [''gone''] s_keep = Inr s1
         \<and> \<not> Has (v_m s1) ''gone''
         \<and> whiteouts (''gone/x'' # [''top'']) s1 =
             whiteouts [''top'']
               (s1\<lparr>v_count := v_count s1 + 1, v_m := Remove (v_m s1) ''gone/x''\<rparr>))"
proof -
  let ?ms = "Missing rev (v_m s_keep) (v_allPaths s_keep)"
  have d: "Dir ''gone/x'' = ''gone''"
    by code_simp
  have d1: "(Dir ^^ 1) ''gone/x'' = ''gone''"
    using d by simp
  have in_ms: "''gone'' \<in> set ?ms"
    unfolding Missing_keep by simp
  from missing_parent_first [OF range_ok_rev M_base_ok walked_keep Missing_keep_split]
  obtain s1 where
    a: "whiteouts [''gone''] s_keep = Inr s1" and
    b: "\<forall>k. (Dir ^^ k) ''gone/x'' \<in> set ?ms \<longrightarrow> (Dir ^^ k) ''gone/x'' \<noteq> ''gone/x'' \<longrightarrow>
            (Dir ^^ k) ''gone/x'' < ''gone/x'' \<and> (Dir ^^ k) ''gone/x'' \<in> set [''gone'']
            \<and> Has (v_m s_keep) ((Dir ^^ k) ''gone/x'')
            \<and> \<not> Has (v_m s1) ((Dir ^^ k) ''gone/x'')" and
    c: "Dir ''gone/x'' \<in> set ?ms \<longrightarrow>
            \<not> Has (Remove (v_m s1) ''gone/x'') (Dir ''gone/x'')
            \<and> whiteouts (''gone/x'' # [''top'']) s1 =
                whiteouts [''top'']
                  (s1\<lparr>v_count := v_count s1 + 1, v_m := Remove (v_m s1) ''gone/x''\<rparr>)"
    by blast
  have "(Dir ^^ 1) ''gone/x'' \<in> set ?ms \<longrightarrow> (Dir ^^ 1) ''gone/x'' \<noteq> ''gone/x'' \<longrightarrow>
            (Dir ^^ 1) ''gone/x'' < ''gone/x''
            \<and> Has (v_m s_keep) ((Dir ^^ 1) ''gone/x'')
            \<and> \<not> Has (v_m s1) ((Dir ^^ 1) ''gone/x'')"
    using b by blast
  then have 1: "''gone'' < ''gone/x'' \<and> Has (v_m s_keep) ''gone'' \<and> \<not> Has (v_m s1) ''gone''"
    unfolding d1 using in_ms by simp
  have 2: "whiteouts (''gone/x'' # [''top'']) s1 =
             whiteouts [''top'']
               (s1\<lparr>v_count := v_count s1 + 1, v_m := Remove (v_m s1) ''gone/x''\<rparr>)"
    using c in_ms unfolding d by blast
  have 3: "\<exists>s1. whiteouts [''gone''] s_keep = Inr s1
         \<and> \<not> Has (v_m s1) ''gone''
         \<and> whiteouts (''gone/x'' # [''top'']) s1 =
             whiteouts [''top'']
               (s1\<lparr>v_count := v_count s1 + 1, v_m := Remove (v_m s1) ''gone/x''\<rparr>)"
    using a 1 2 by blast
  from range_ok_rev M_base_ok walked_keep Missing_keep_split d1 1 3 show ?thesis
    by (intro conjI) simp_all
qed

text \<open>
  A baseline with the keys \<open>.\<close>, \<open>d\<close> and \<open>#/../d/y\<close>, read against an empty directory.
  The directory of the key \<open>#/../d/y\<close> is \<open>d\<close>, and both are missing, but the key sorts
  before its directory: when the loop examines it, \<open>d\<close> is still a key, and the marker
  is written.
\<close>

theorem missing_parent_first_counterexample:
  "walked hash_ex ''dir'' (Directory 493 []) M_odd2 =
     Inr \<lparr>v_m = M_odd2, v_tw = NewWriter, v_count = 0, v_allPaths = [''.'']\<rparr>
   \<and> Missing id M_odd2 [''.''] = [''#/../d/y'', ''d'']
   \<and> Dir ''#/../d/y'' = ''d''
   \<and> Has (Remove M_odd2 ''#/../d/y'') (Dir ''#/../d/y'')
   \<and> writeNewFiles id hash_ex ''dir'' (Directory 493 []) M_odd2 =
       Inr (\<lparr>entries =
              [(\<lparr>Name = ''/var/run/kontext/d/.wh.y'', Size = 0, Typeflag = TypeReg,
                 Mode = 0\<rparr>, []),
               (\<lparr>Name = ''/var/run/kontext/.wh.d'', Size = 0, Typeflag = TypeReg,
                 Mode = 0\<rparr>, [])],
             remaining = 0\<rparr>,
            2,
            \<lparr>Files = Some [(''.'', []), (''#/../d/y'', ''h'')]\<rparr>)"
proof -
  have 1: "walked hash_ex ''dir'' (Directory 493 []) M_odd2 =
     Inr \<lparr>v_m = M_odd2, v_tw = NewWriter, v_count = 0, v_allPaths = [''.'']\<rparr>"
    unfolding M_odd2_def by code_simp
  have 2: "Missing id M_odd2 [''.''] = [''#/../d/y'', ''d'']"
    unfolding M_odd2_def by code_simp
  have 3: "Dir ''#/../d/y'' = ''d''"
    by code_simp
  have 4: "Has (Remove M_odd2 ''#/../d/y'') (Dir ''#/../d/y'')"
    unfolding M_odd2_def by code_simp
  have 5: "writeNewFiles id hash_ex ''dir'' (Directory 493 []) M_odd2 =
       Inr (\<lparr>entries =
              [(\<lparr>Name = ''/var/run/kontext/d/.wh.y'', Size = 0, Typeflag = TypeReg,
                 Mode = 0\<rparr>, []),
               (\<lparr>Name = ''/var/run/kontext/.wh.d'', Size = 0, Typeflag = TypeReg,
                 Mode = 0\<rparr>, [])],
             remaining = 0\<rparr>,
            2,
            \<lparr>Files = Some [(''.'', []), (''#/../d/y'', ''h'')]\<rparr>)"
    unfolding M_odd2_def by code_simp
  from 1 2 3 4 5 show ?thesis by (intro conjI)
qed

section \<open>Determinism\<close>

lemma Marshal_range:
  assumes "range_ok rng1" and "range_ok rng2" and "wf_Manifest m"
  shows "Marshal rng1 m = Marshal rng2 m"
proof (cases "Files m")
  case None
  then show ?thesis by (simp add: Marshal_def)
next
  case (Some fs)
  have d: "distinct (map fst (rng1 fs))"
    using assms(1,3) Some range_ok_distinct [of rng1 fs] by (simp add: wf_Manifest_def)
  have "mset (rng1 fs) = mset (rng2 fs)"
    using assms(1,2) by (simp add: range_ok_def)
  moreover have "inj_on fst (set (rng1 fs))"
    using d by (simp add: distinct_map)
  ultimately have "sort_key fst (rng1 fs) = sort_key fst (rng2 fs)"
    by (rule sort_key_eq_sort_key)
  then show ?thesis
    using Some by (simp add: Marshal_def)
qed

lemma Missing_empty_baseline:
  assumes "range_ok rng" and "keys m = {}" and "walked H directory tree m = Inr s"
  shows "Missing rng (v_m s) (v_allPaths s) = []"
proof -
  have "keys (v_m s) = normalize_path ` set (v_allPaths s)"
    using walked_walk_inv [OF assms(3)] assms(2) by (simp add: walk_inv_def)
  then have "set (Missing rng (v_m s) (v_allPaths s)) = {}"
    using set_Missing [OF assms(1), of "v_m s" "v_allPaths s"] by auto
  then show ?thesis by simp
qed

lemma wf_no_keys: "keys m = {} \<Longrightarrow> wf_Manifest m"
  by (cases "Files m") (auto simp: keys_def wf_Manifest_def)

text \<open>
  C6.  Start from a baseline without keys.  Two runs may differ in the order in which
  each range over a map visits it (\<open>rng1\<close>, \<open>rng2\<close> in \<open>Missing\<close>; \<open>rng1'\<close>, \<open>rng2'\<close> in the
  JSON encoder) and in the order in which the directories list their entries (\<open>tree1\<close>,
  \<open>tree2\<close>: the same entries once sorted).  When the first run succeeds, the second
  returns the same data-layer archive, the same count and the same manifest, and the two
  manifest-layer archives are the same.  No header has a field for a time: an archive is
  its list of entries, and its bytes are a function of that list.
\<close>

theorem synthesis_deterministic:
  assumes "range_ok rng1" and "range_ok rng2" and "range_ok rng1'" and "range_ok rng2'"
    and "keys m = {}"
    and "sort_entries tree1 = sort_entries tree2"
    and "writeNewFiles rng1 H directory tree1 m = Inr (layer, delta, m')"
  shows "writeNewFiles rng2 H directory tree2 m = Inr (layer, delta, m')
     \<and> writeManifest rng1' m' = writeManifest rng2' m'"
proof -
  from writeNewFiles_Inr_walked [OF assms(7)] obtain s where
    w1: "walked H directory tree1 m = Inr s"
    by blast
  have w2: "walked H directory tree2 m = Inr s"
    using w1 assms(6) by (simp add: walked_def Walk_def)
  have e1: "Missing rng1 (v_m s) (v_allPaths s) = []"
    using assms(1,5) w1 by (rule Missing_empty_baseline)
  have e2: "Missing rng2 (v_m s) (v_allPaths s) = []"
    using assms(2,5) w2 by (rule Missing_empty_baseline)
  have r1: "writeNewFiles rng1 H directory tree1 m =
      Inr (\<lparr>entries = entries (v_tw s), remaining = 0\<rparr>, v_count s, v_m s)"
    using writeNewFiles_walked [OF w1, of rng1] e1 by simp
  have r2: "writeNewFiles rng2 H directory tree2 m =
      Inr (\<lparr>entries = entries (v_tw s), remaining = 0\<rparr>, v_count s, v_m s)"
    using writeNewFiles_walked [OF w2, of rng2] e2 by simp
  have 1: "writeNewFiles rng2 H directory tree2 m = Inr (layer, delta, m')"
    using r1 r2 assms(7) by simp
  have "m' = v_m s"
    using r1 assms(7) by simp
  moreover have "wf_Manifest (v_m s)"
    using walked_walk_inv [OF w1] wf_no_keys [OF assms(5)] by (simp add: walk_inv_def)
  ultimately have "wf_Manifest m'"
    by simp
  with assms(3,4) have "Marshal rng1' m' = Marshal rng2' m'"
    by (rule Marshal_range)
  then have 2: "writeManifest rng1' m' = writeManifest rng2' m'"
    by (simp add: writeManifest_def)
  from 1 2 show ?thesis by blast
qed

lemma sort_entries_ex: "sort_entries tree_ex = sort_entries tree_ex2"
  unfolding tree_ex_def tree_ex2_def by code_simp

lemma writeNewFiles_tree_ex:
  "writeNewFiles id hash_ex ''dir'' tree_ex M_empty =
     Inr (\<lparr>entries =
            [(\<lparr>Name = ''/var/run/kontext'', Size = 0, Typeflag = TypeDir, Mode = 365\<rparr>, []),
             (\<lparr>Name = ''/var/run/kontext/a'', Size = 0, Typeflag = TypeDir, Mode = 365\<rparr>, []),
             (\<lparr>Name = ''/var/run/kontext/a/b'', Size = 1, Typeflag = TypeReg, Mode = 365\<rparr>,
              ''B''),
             (\<lparr>Name = ''/var/run/kontext/foo'', Size = 0, Typeflag = TypeDir, Mode = 365\<rparr>, []),
             (\<lparr>Name = ''/var/run/kontext/foo/bar'', Size = 3, Typeflag = TypeReg,
               Mode = 365\<rparr>, ''BAR'')],
            remaining = 0\<rparr>,
          5,
          \<lparr>Files = Some [(''.'', []), (''a'', []), (''a/b'', ''sha256:B''),
                         (''foo'', []), (''foo/bar'', ''sha256:BAR'')]\<rparr>)"
  unfolding tree_ex_def M_empty_def by code_simp

theorem synthesis_deterministic_witness:
  "range_ok id \<and> range_ok rev \<and> keys M_empty = {}
   \<and> sort_entries tree_ex = sort_entries tree_ex2
   \<and> writeNewFiles rev hash_ex ''dir'' tree_ex2 M_empty =
       writeNewFiles id hash_ex ''dir'' tree_ex M_empty
   \<and> writeManifest id \<lparr>Files = Some [(''.'', []), (''a'', []), (''a/b'', ''sha256:B''),
                         (''foo'', []), (''foo/bar'', ''sha256:BAR'')]\<rparr> =
       writeManifest rev \<lparr>Files = Some [(''.'', []), (''a'', []), (''a/b'', ''sha256:B''),
                         (''foo'', []), (''foo/bar'', ''sha256:BAR'')]\<rparr>"
proof -
  have k: "keys M_empty = {}"
    by (simp add: M_empty_def keys_def)
  note t = synthesis_deterministic [OF range_ok_id range_ok_rev range_ok_id range_ok_rev k
        sort_entries_ex writeNewFiles_tree_ex]
  have 1: "writeNewFiles rev hash_ex ''dir'' tree_ex2 M_empty =
       writeNewFiles id hash_ex ''dir'' tree_ex M_empty"
    using t writeNewFiles_tree_ex by (simp only:)
  have 2: "writeManifest id \<lparr>Files = Some [(''.'', []), (''a'', []), (''a/b'', ''sha256:B''),
                         (''foo'', []), (''foo/bar'', ''sha256:BAR'')]\<rparr> =
       writeManifest rev \<lparr>Files = Some [(''.'', []), (''a'', []), (''a/b'', ''sha256:B''),
                         (''foo'', []), (''foo/bar'', ''sha256:BAR'')]\<rparr>"
    using t by (rule conjunct2)
  from range_ok_id range_ok_rev k sort_entries_ex 1 2 show ?thesis
    by (intro conjI)
qed

end
